theory Spec2Isabelle
  imports Main
begin

section \<open>The installer of packages/installer/src/installer.ts\<close>

text \<open>
  The class \<open>Installer\<close> walks an ordered list of steps, calling optional lifecycle hooks
  around them and handing each step to the executor whose type predicate accepts it.
  Everything the method \<open>run\<close> does is a call: to the logger, to the confirmation prompt,
  to one of its own private lifecycle methods, to a hook of the options, to an executor.
  The model runs the same calls in the same order and writes each of them into a list of
  events, so that statements on what is invoked, how often and in which order are
  statements about that list.

  The constructor keeps the options object and the steps array of its caller by
  reference, and the hooks are functions stored in that very options object. So the
  content of these objects belongs to the state that every hook, every executor and the
  prompt may change, and \<open>run\<close> reads it anew at each use.
\<close>

subsection \<open>Data\<close>

text \<open>
  An awaited promise resolves, rejects with an error, or never settles. A synchronous
  \<open>throw\<close> inside an \<open>async\<close> method is a rejection of its promise as well.
\<close>

datatype 'e completion = Resolved | Rejected 'e | Pending

text \<open>
  The content of a step object (the union type \<open>Executor\<close>): the field \<open>stepId\<close> is the
  only one that \<open>run\<close> reads; the rest is the payload. The type \<open>'id\<close> stands for
  \<open>string | number\<close>, which the installer only passes on.
\<close>

record ('id, 'p) executor =
  stepId :: 'id
  payload :: 'p

text \<open>
  The content of the options object (\<open>InstallerOptions\<close>). A hook is a function value, of
  type \<open>'h\<close>; an optional method is \<open>None\<close> when it is absent.
\<close>

record 'h installerOptions =
  packageName :: string
  packageDescription :: string
  packageOwner :: string
  packageRepoLink :: string
  validateArgs :: "'h option"
  preInstall :: "'h option"
  beforeEach :: "'h option"
  afterEach :: "'h option"
  postInstall :: "'h option"

text \<open>
  What the two private readonly fields of the class refer to: the content of the options
  object, and the content of the steps array, whose elements are references (of type
  \<open>'r\<close>) to step objects.
\<close>

record ('r, 'h) installer =
  options :: "'h installerOptions"
  steps :: "'r list"

text \<open>The constructor stores its two arguments.\<close>

definition Installer :: "'h installerOptions \<Rightarrow> 'r list \<Rightarrow> ('r, 'h) installer" where
  "Installer opts sts = \<lparr>options = opts, steps = sts\<rparr>"

text \<open>
  The state a method runs in: the objects the installer refers to (\<open>this\<close>), the step
  objects, and the rest of the world (files, terminal, the variables of the hooks).
\<close>

record ('r, 'id, 'p, 'h, 'w) state =
  this :: "('r, 'h) installer"
  objects :: "'r \<Rightarrow> ('id, 'p) executor"
  world :: 'w

subsection \<open>Events\<close>

text \<open>The five private lifecycle methods, with the argument each is called with.\<close>

datatype ('id, 'a) lifecycle =
    ValidateArgs 'a
  | PreInstall
  | BeforeEach 'id
  | AfterEach 'id
  | PostInstall

datatype executorKind = FileTransform | AddDependency | NewFile

text \<open>
  \<open>Invoke m\<close>: \<open>run\<close> calls the private method \<open>m\<close> of the installer.
  \<open>Hook m c\<close>: that method calls the hook of the options, whose promise settles as \<open>c\<close>.
  \<open>Execute k r step args c\<close>: the executor \<open>k\<close> is called with the step object \<open>r\<close>, whose
  content is \<open>step\<close> at that moment, and with \<open>args\<close>, and settles as \<open>c\<close>.
  \<open>Confirmation text c\<close>: \<open>waitForConfirmation(text)\<close> is awaited and settles as \<open>c\<close>.
  \<open>LogExecutorFrontmatter step\<close>: the frontmatter of a step object of content \<open>step\<close> is
  rendered. The others are the calls to the logger and to \<open>console.log()\<close>.
\<close>

datatype ('r, 'id, 'p, 'a, 'e) event =
    Log_branded string
  | Log_info string
  | Log_error 'e
  | Log_success string
  | Console_log
  | LogExecutorFrontmatter "('id, 'p) executor"
  | Confirmation string "'e completion"
  | Invoke "('id, 'a) lifecycle"
  | Hook "('id, 'a) lifecycle" "'e completion"
  | Execute executorKind 'r "('id, 'p) executor" 'a "'e completion"

subsection \<open>Collaborators\<close>

text \<open>
  The imported functions, whose modules are outside the file: the three type predicates,
  the three executors and the confirmation prompt; and \<open>call\<close>, what calling a function
  value as a given hook does. They are parameters of the model. A predicate reads the
  content of a step; an executor, the prompt and a hook run in the whole state, return
  how their promise settles and leave a new state.
\<close>

record ('r, 'id, 'p, 'h, 'a, 'e, 'w) collaborators =
  isFileTransformExecutor :: "('id, 'p) executor \<Rightarrow> bool"
  isAddDependencyExecutor :: "('id, 'p) executor \<Rightarrow> bool"
  isNewFileExecutor :: "('id, 'p) executor \<Rightarrow> bool"
  fileTransformExecutor ::
    "'r \<Rightarrow> 'a \<Rightarrow> ('r, 'id, 'p, 'h, 'w) state \<Rightarrow> 'e completion \<times> ('r, 'id, 'p, 'h, 'w) state"
  addDependencyExecutor ::
    "'r \<Rightarrow> 'a \<Rightarrow> ('r, 'id, 'p, 'h, 'w) state \<Rightarrow> 'e completion \<times> ('r, 'id, 'p, 'h, 'w) state"
  newFileExecutor ::
    "'r \<Rightarrow> 'a \<Rightarrow> ('r, 'id, 'p, 'h, 'w) state \<Rightarrow> 'e completion \<times> ('r, 'id, 'p, 'h, 'w) state"
  waitForConfirmation ::
    "string \<Rightarrow> ('r, 'id, 'p, 'h, 'w) state \<Rightarrow> 'e completion \<times> ('r, 'id, 'p, 'h, 'w) state"
  call ::
    "'h \<Rightarrow> ('id, 'a) lifecycle \<Rightarrow> ('r, 'id, 'p, 'h, 'w) state
       \<Rightarrow> 'e completion \<times> ('r, 'id, 'p, 'h, 'w) state"

subsection \<open>Sequencing\<close>

text \<open>
  A method returns how it completes, the events it produced and the state it leaves; it
  returns nothing (\<open>None\<close>) when it runs forever, which only the loop over a growing array
  can do.
\<close>

type_synonym ('r, 'id, 'p, 'h, 'a, 'e, 'w) action =
  "('r, 'id, 'p, 'h, 'w) state \<Rightarrow>
     ('e completion \<times> ('r, 'id, 'p, 'a, 'e) event list \<times> ('r, 'id, 'p, 'h, 'w) state) option"

text \<open>\<open>await f; g\<close>: the second statement runs only once the first has resolved.\<close>

definition andThen ::
  "('r, 'id, 'p, 'h, 'a, 'e, 'w) action \<Rightarrow> ('r, 'id, 'p, 'h, 'a, 'e, 'w) action
     \<Rightarrow> ('r, 'id, 'p, 'h, 'a, 'e, 'w) action"
where
  "andThen f g s =
     (case f s of
        None \<Rightarrow> None
      | Some (Resolved, evs, s') \<Rightarrow>
          (case g s' of None \<Rightarrow> None | Some (c, evs', s'') \<Rightarrow> Some (c, evs @ evs', s''))
      | Some (Rejected e, evs, s') \<Rightarrow> Some (Rejected e, evs, s')
      | Some (Pending, evs, s') \<Rightarrow> Some (Pending, evs, s'))"

text \<open>A call that only writes to the terminal.\<close>

definition emit ::
  "('r, 'id, 'p, 'a, 'e) event \<Rightarrow> ('r, 'id, 'p, 'h, 'a, 'e, 'w) action"
where
  "emit ev s = Some (Resolved, [ev], s)"

text \<open>An awaited call of a collaborator, recorded with the way it settles.\<close>

definition await ::
  "('e completion \<Rightarrow> ('r, 'id, 'p, 'a, 'e) event) \<Rightarrow>
   (('r, 'id, 'p, 'h, 'w) state \<Rightarrow> 'e completion \<times> ('r, 'id, 'p, 'h, 'w) state) \<Rightarrow>
   ('r, 'id, 'p, 'h, 'a, 'e, 'w) action"
where
  "await ev f s = (case f s of (c, s') \<Rightarrow> Some (c, [ev c], s'))"

subsection \<open>The methods of the class\<close>

text \<open>
  The five private methods have one shape: \<open>if (this.options.h) return this.options.h(..)\<close>.
  Each first records that it has been called; when the hook is absent it does nothing more.
\<close>

definition Installer_validateArgs ::
  "('r, 'id, 'p, 'h, 'a, 'e, 'w) collaborators \<Rightarrow> 'a \<Rightarrow> ('r, 'id, 'p, 'h, 'a, 'e, 'w) action"
where
  "Installer_validateArgs im cliArgs =
     andThen (emit (Invoke (ValidateArgs cliArgs)))
       (\<lambda>s. case validateArgs (options (this s)) of
               None \<Rightarrow> Some (Resolved, [], s)
             | Some h \<Rightarrow> await (Hook (ValidateArgs cliArgs)) (call im h (ValidateArgs cliArgs)) s)"

definition Installer_preInstall ::
  "('r, 'id, 'p, 'h, 'a, 'e, 'w) collaborators \<Rightarrow> ('r, 'id, 'p, 'h, 'a, 'e, 'w) action"
where
  "Installer_preInstall im =
     andThen (emit (Invoke PreInstall))
       (\<lambda>s. case preInstall (options (this s)) of
               None \<Rightarrow> Some (Resolved, [], s)
             | Some h \<Rightarrow> await (Hook PreInstall) (call im h PreInstall) s)"

definition Installer_beforeEach ::
  "('r, 'id, 'p, 'h, 'a, 'e, 'w) collaborators \<Rightarrow> 'id \<Rightarrow> ('r, 'id, 'p, 'h, 'a, 'e, 'w) action"
where
  "Installer_beforeEach im sid =
     andThen (emit (Invoke (BeforeEach sid)))
       (\<lambda>s. case beforeEach (options (this s)) of
               None \<Rightarrow> Some (Resolved, [], s)
             | Some h \<Rightarrow> await (Hook (BeforeEach sid)) (call im h (BeforeEach sid)) s)"

definition Installer_afterEach ::
  "('r, 'id, 'p, 'h, 'a, 'e, 'w) collaborators \<Rightarrow> 'id \<Rightarrow> ('r, 'id, 'p, 'h, 'a, 'e, 'w) action"
where
  "Installer_afterEach im sid =
     andThen (emit (Invoke (AfterEach sid)))
       (\<lambda>s. case afterEach (options (this s)) of
               None \<Rightarrow> Some (Resolved, [], s)
             | Some h \<Rightarrow> await (Hook (AfterEach sid)) (call im h (AfterEach sid)) s)"

definition Installer_postInstall ::
  "('r, 'id, 'p, 'h, 'a, 'e, 'w) collaborators \<Rightarrow> ('r, 'id, 'p, 'h, 'a, 'e, 'w) action"
where
  "Installer_postInstall im =
     andThen (emit (Invoke PostInstall))
       (\<lambda>s. case postInstall (options (this s)) of
               None \<Rightarrow> Some (Resolved, [], s)
             | Some h \<Rightarrow> await (Hook PostInstall) (call im h PostInstall) s)"

definition confirmationText :: string where
  "confirmationText = ''Press enter to begin installation''"

definition displayFrontmatter ::
  "('r, 'id, 'p, 'h, 'a, 'e, 'w) collaborators \<Rightarrow> ('r, 'id, 'p, 'h, 'a, 'e, 'w) action"
where
  "displayFrontmatter im s =
     andThen (emit (Log_branded (''Welcome to the installer for '' @ packageName (options (this s)))))
    (andThen (emit (Log_branded (packageDescription (options (this s)))))
    (andThen (emit (Log_info (''This package is authored and supported by ''
                                @ packageOwner (options (this s)))))
    (andThen (emit (Log_info (''For additional documentation and support please visit ''
                                @ packageRepoLink (options (this s)))))
    (andThen (emit Console_log)
             (await (Confirmation confirmationText)
                    (waitForConfirmation im confirmationText)))))) s"

text \<open>
  The chain of \<open>if\<close> and \<open>else if\<close> in the loop body, for the step object \<open>r\<close>: the three
  predicates are tested on its content, one after the other and with nothing in between.
\<close>

definition dispatch ::
  "('r, 'id, 'p, 'h, 'a, 'e, 'w) collaborators \<Rightarrow> 'a \<Rightarrow> 'r \<Rightarrow> ('r, 'id, 'p, 'h, 'a, 'e, 'w) action"
where
  "dispatch im cliArgs r s =
     (if isFileTransformExecutor im (objects s r) then
        await (Execute FileTransform r (objects s r) cliArgs) (fileTransformExecutor im r cliArgs) s
      else if isAddDependencyExecutor im (objects s r) then
        await (Execute AddDependency r (objects s r) cliArgs) (addDependencyExecutor im r cliArgs) s
      else if isNewFileExecutor im (objects s r) then
        await (Execute NewFile r (objects s r) cliArgs) (newFileExecutor im r cliArgs) s
      else Some (Resolved, [], s))"

text \<open>
  The body of the \<open>for\<close> loop, for the step object \<open>r\<close> that the iteration has bound to
  \<open>step\<close>; \<open>step.stepId\<close> is read from the object each time it is used.
\<close>

definition run_step ::
  "('r, 'id, 'p, 'h, 'a, 'e, 'w) collaborators \<Rightarrow> 'a \<Rightarrow> 'r \<Rightarrow> ('r, 'id, 'p, 'h, 'a, 'e, 'w) action"
where
  "run_step im cliArgs r =
     andThen (emit Console_log)
    (andThen (\<lambda>s. Installer_beforeEach im (stepId (objects s r)) s)
    (andThen (\<lambda>s. emit (LogExecutorFrontmatter (objects s r)) s)
    (andThen (dispatch im cliArgs r)
             (\<lambda>s. Installer_afterEach im (stepId (objects s r)) s))))"

text \<open>
  The loop \<open>for (const step of this.steps)\<close>: the iterator of the array holds the index
  of the next element, and compares it with the length of the array as it is then. The
  body is followed by the rest of the loop as \<open>andThen\<close> would do it, written out here
  because the loop need not return: a hook may push a step at each iteration.
\<close>

partial_function (option) for_steps ::
  "('r, 'id, 'p, 'h, 'a, 'e, 'w) collaborators \<Rightarrow> 'a \<Rightarrow> nat \<Rightarrow> ('r, 'id, 'p, 'h, 'w) state \<Rightarrow>
     ('e completion \<times> ('r, 'id, 'p, 'a, 'e) event list \<times> ('r, 'id, 'p, 'h, 'w) state) option"
where
  "for_steps im cliArgs i s =
     (if i < length (steps (this s)) then
        Option.bind (run_step im cliArgs (steps (this s) ! i) s)
          (\<lambda>(c, evs, s').
             if c = Resolved then
               Option.bind (for_steps im cliArgs (Suc i) s')
                 (\<lambda>(c', evs', s''). Some (c', evs @ evs', s''))
             else Some (c, evs, s'))
      else Some (Resolved, [], s))"

declare for_steps.simps [code]

definition run_steps ::
  "('r, 'id, 'p, 'h, 'a, 'e, 'w) collaborators \<Rightarrow> 'a \<Rightarrow> ('r, 'id, 'p, 'h, 'a, 'e, 'w) action"
where
  "run_steps im cliArgs = for_steps im cliArgs 0"

text \<open>What \<open>run\<close> does after the \<open>try\<close> statement.\<close>

definition install ::
  "('r, 'id, 'p, 'h, 'a, 'e, 'w) collaborators \<Rightarrow> 'a \<Rightarrow> ('r, 'id, 'p, 'h, 'a, 'e, 'w) action"
where
  "install im cliArgs =
     andThen (Installer_preInstall im)
    (andThen (run_steps im cliArgs)
    (andThen (Installer_postInstall im)
    (andThen (emit Console_log)
             (\<lambda>s. emit (Log_success (''Installer complete, '' @ packageName (options (this s))
                                       @ '' is now be configured for your app!'')) s))))"

text \<open>
  \<open>run\<close>: the frontmatter, then the \<open>try\<close> statement around \<open>validateArgs\<close>, whose \<open>catch\<close>
  clause logs the error and returns, then the rest.
\<close>

definition run ::
  "('r, 'id, 'p, 'h, 'a, 'e, 'w) collaborators \<Rightarrow> 'a \<Rightarrow> ('r, 'id, 'p, 'h, 'a, 'e, 'w) action"
where
  "run im cliArgs =
     andThen (displayFrontmatter im)
       (\<lambda>s. case Installer_validateArgs im cliArgs s of
              None \<Rightarrow> None
            | Some (Rejected err, evs, s') \<Rightarrow> Some (Resolved, evs @ [Log_error err], s')
            | Some (Pending, evs, s') \<Rightarrow> Some (Pending, evs, s')
            | Some (Resolved, evs, s') \<Rightarrow>
                (case install im cliArgs s' of
                   None \<Rightarrow> None
                 | Some (c, evs', s'') \<Rightarrow> Some (c, evs @ evs', s'')))"

subsection \<open>Reading a list of events\<close>

text \<open>How the awaited call behind an event settled; a call to the logger awaits nothing.\<close>

fun outcome :: "('r, 'id, 'p, 'a, 'e) event \<Rightarrow> 'e completion option" where
  "outcome (Confirmation t c) = Some c"
| "outcome (Hook m c) = Some c"
| "outcome (Execute k r step cliArgs c) = Some c"
| "outcome _ = None"

text \<open>The same call, had it resolved.\<close>

fun settled :: "('r, 'id, 'p, 'a, 'e) event \<Rightarrow> ('r, 'id, 'p, 'a, 'e) event" where
  "settled (Confirmation t c) = Confirmation t Resolved"
| "settled (Hook m c) = Hook m Resolved"
| "settled (Execute k r step cliArgs c) = Execute k r step cliArgs Resolved"
| "settled ev = ev"

fun isLogError :: "('r, 'id, 'p, 'a, 'e) event \<Rightarrow> bool" where
  "isLogError (Log_error err) = True"
| "isLogError _ = False"

fun isLogSuccess :: "('r, 'id, 'p, 'a, 'e) event \<Rightarrow> bool" where
  "isLogSuccess (Log_success msg) = True"
| "isLogSuccess _ = False"

fun isExecute :: "('r, 'id, 'p, 'a, 'e) event \<Rightarrow> bool" where
  "isExecute (Execute k r step cliArgs c) = True"
| "isExecute _ = False"

fun isConfirmation :: "('r, 'id, 'p, 'a, 'e) event \<Rightarrow> bool" where
  "isConfirmation (Confirmation t c) = True"
| "isConfirmation _ = False"

text \<open>The lifecycle method an event belongs to, as a call of the method or of its hook.\<close>

fun invoked :: "('r, 'id, 'p, 'a, 'e) event \<Rightarrow> ('id, 'a) lifecycle option" where
  "invoked (Invoke m) = Some m"
| "invoked _ = None"

fun hooked :: "('r, 'id, 'p, 'a, 'e) event \<Rightarrow> ('id, 'a) lifecycle option" where
  "hooked (Hook m c) = Some m"
| "hooked _ = None"

fun perStep :: "('id, 'a) lifecycle \<Rightarrow> bool" where
  "perStep (BeforeEach sid) = True"
| "perStep (AfterEach sid) = True"
| "perStep _ = False"

fun isValidateArgs :: "('id, 'a) lifecycle \<Rightarrow> bool" where
  "isValidateArgs (ValidateArgs cliArgs) = True"
| "isValidateArgs _ = False"

fun isPostInstall :: "('id, 'a) lifecycle \<Rightarrow> bool" where
  "isPostInstall PostInstall = True"
| "isPostInstall _ = False"

fun isBeforeEach :: "('id, 'a) lifecycle \<Rightarrow> bool" where
  "isBeforeEach (BeforeEach sid) = True"
| "isBeforeEach _ = False"

fun isAfterEach :: "('id, 'a) lifecycle \<Rightarrow> bool" where
  "isAfterEach (AfterEach sid) = True"
| "isAfterEach _ = False"

text \<open>The lifecycle methods called, and the hooks called, in the order of the calls.\<close>

definition invocations :: "('r, 'id, 'p, 'a, 'e) event list \<Rightarrow> ('id, 'a) lifecycle list" where
  "invocations evs = List.map_filter invoked evs"

definition hookCalls :: "('r, 'id, 'p, 'a, 'e) event list \<Rightarrow> ('id, 'a) lifecycle list" where
  "hookCalls evs = List.map_filter hooked evs"

text \<open>
  The calls whose failure \<open>run\<close> does not catch: the hooks other than \<open>validateArgs\<close>,
  and the executors.
\<close>

fun uncaught :: "('r, 'id, 'p, 'a, 'e) event \<Rightarrow> bool" where
  "uncaught (Hook m c) = (\<not> isValidateArgs m)"
| "uncaught (Execute k r step cliArgs c) = True"
| "uncaught _ = False"

text \<open>An event of the loop body: a call of a per-step method or hook, or of an executor.\<close>

fun inStep :: "('r, 'id, 'p, 'a, 'e) event \<Rightarrow> bool" where
  "inStep (Invoke m) = perStep m"
| "inStep (Hook m c) = perStep m"
| "inStep (Execute k r step cliArgs c) = True"
| "inStep _ = False"

text \<open>An event that the loop can produce.\<close>

fun inLoop :: "('r, 'id, 'p, 'a, 'e) event \<Rightarrow> bool" where
  "inLoop Console_log = True"
| "inLoop (LogExecutorFrontmatter step) = True"
| "inLoop ev = inStep ev"


subsection \<open>A list of events as a record of real calls\<close>

text \<open>The hook of the options behind a lifecycle method.\<close>

fun hookOf :: "('id, 'a) lifecycle \<Rightarrow> 'h installerOptions \<Rightarrow> 'h option" where
  "hookOf (ValidateArgs cliArgs) opts = validateArgs opts"
| "hookOf PreInstall opts = preInstall opts"
| "hookOf (BeforeEach sid) opts = beforeEach opts"
| "hookOf (AfterEach sid) opts = afterEach opts"
| "hookOf PostInstall opts = postInstall opts"

fun executorOf ::
  "('r, 'id, 'p, 'h, 'a, 'e, 'w) collaborators \<Rightarrow> executorKind \<Rightarrow>
   'r \<Rightarrow> 'a \<Rightarrow> ('r, 'id, 'p, 'h, 'w) state \<Rightarrow> 'e completion \<times> ('r, 'id, 'p, 'h, 'w) state"
where
  "executorOf im FileTransform = fileTransformExecutor im"
| "executorOf im AddDependency = addDependencyExecutor im"
| "executorOf im NewFile = newFileExecutor im"

text \<open>The first of the three predicates, in their fixed order, that a step satisfies.\<close>

definition firstMatch ::
  "('r, 'id, 'p, 'h, 'a, 'e, 'w) collaborators \<Rightarrow> ('id, 'p) executor \<Rightarrow> executorKind option"
where
  "firstMatch im step =
     (if isFileTransformExecutor im step then Some FileTransform
      else if isAddDependencyExecutor im step then Some AddDependency
      else if isNewFileExecutor im step then Some NewFile
      else None)"

text \<open>The arguments of the run are those that \<open>validateArgs\<close> is called with.\<close>

fun forwards :: "'a \<Rightarrow> ('id, 'a) lifecycle \<Rightarrow> bool" where
  "forwards cliArgs (ValidateArgs a) = (a = cliArgs)"
| "forwards cliArgs m = True"

text \<open>
  What the code owes after an event: nothing, the call of the hook behind a lifecycle
  method that has just been invoked (when the options hold one), or the call of the
  executor of the first predicate that the step just rendered satisfies (when there is
  one).
\<close>

datatype ('id, 'p, 'a) due =
    Nothing
  | HookDue "('id, 'a) lifecycle"
  | ExecutorDue executorKind "('id, 'p) executor"

text \<open>
  An event is a real call in a state when the collaborator it names, applied in that
  state, settles as the event says; the state after the event is the one the collaborator
  leaves. The call of a hook must be the one that the invocation of its lifecycle method
  has just made due: the options hold that hook at that moment, and \<open>validateArgs\<close> gets
  the arguments of the run. The call of an executor must be the one that the rendering of
  the step has just made due: the first match of the step as it is at that moment, with
  the reference of the step and the arguments of the run. While a call is due no other
  event may come.
\<close>

fun perform ::
  "('r, 'id, 'p, 'h, 'a, 'e, 'w) collaborators \<Rightarrow> 'a \<Rightarrow> ('r, 'id, 'p, 'a, 'e) event \<Rightarrow>
   ('id, 'p, 'a) due \<times> ('r, 'id, 'p, 'h, 'w) state \<Rightarrow>
   (('id, 'p, 'a) due \<times> ('r, 'id, 'p, 'h, 'w) state) option"
where
  "perform im cliArgs (Invoke m) (d, s) =
     (if d = Nothing \<and> forwards cliArgs m
      then Some (case hookOf m (options (this s)) of None \<Rightarrow> Nothing | Some h \<Rightarrow> HookDue m, s)
      else None)"
| "perform im cliArgs (Hook m c) (d, s) =
     (case hookOf m (options (this s)) of
        None \<Rightarrow> None
      | Some h \<Rightarrow>
          if d = HookDue m \<and> fst (call im h m s) = c
          then Some (Nothing, snd (call im h m s)) else None)"
| "perform im cliArgs (LogExecutorFrontmatter step) (d, s) =
     (if d = Nothing
      then Some (case firstMatch im step of None \<Rightarrow> Nothing | Some k \<Rightarrow> ExecutorDue k step, s)
      else None)"
| "perform im cliArgs (Execute k r step a c) (d, s) =
     (if d = ExecutorDue k step \<and> objects s r = step \<and> a = cliArgs
         \<and> fst (executorOf im k r a s) = c
      then Some (Nothing, snd (executorOf im k r a s)) else None)"
| "perform im cliArgs (Confirmation t c) (d, s) =
     (if d = Nothing \<and> fst (waitForConfirmation im t s) = c
      then Some (Nothing, snd (waitForConfirmation im t s)) else None)"
| "perform im cliArgs ev (d, s) = (if d = Nothing then Some (Nothing, s) else None)"

fun performAll ::
  "('r, 'id, 'p, 'h, 'a, 'e, 'w) collaborators \<Rightarrow> 'a \<Rightarrow> ('r, 'id, 'p, 'a, 'e) event list \<Rightarrow>
   ('id, 'p, 'a) due \<times> ('r, 'id, 'p, 'h, 'w) state \<Rightarrow>
   (('id, 'p, 'a) due \<times> ('r, 'id, 'p, 'h, 'w) state) option"
where
  "performAll im cliArgs [] ds = Some ds"
| "performAll im cliArgs (ev # evs) ds =
     (case perform im cliArgs ev ds of None \<Rightarrow> None | Some ds' \<Rightarrow> performAll im cliArgs evs ds')"

text \<open>
  A list of events replays from a state when each of its events is a real call in the
  state that the events before it lead to, no call that is due is left out, and nothing
  is due at the end; the result is the state reached.
\<close>

definition replay ::
  "('r, 'id, 'p, 'h, 'a, 'e, 'w) collaborators \<Rightarrow> 'a \<Rightarrow> ('r, 'id, 'p, 'a, 'e) event list \<Rightarrow>
   ('r, 'id, 'p, 'h, 'w) state \<Rightarrow> ('r, 'id, 'p, 'h, 'w) state option"
where
  "replay im cliArgs evs s =
     (case performAll im cliArgs evs (Nothing, s) of
        None \<Rightarrow> None
      | Some (d, s') \<Rightarrow> if d = Nothing then Some s' else None)"

text \<open>
  How the awaited calls of a list of events agree with the completion of the whole: all
  resolved when the whole resolved; otherwise all resolved but the last event, which
  settled as the whole did.
\<close>

definition quiet :: "('r, 'id, 'p, 'a, 'e) event \<Rightarrow> bool" where
  "quiet ev \<longleftrightarrow> outcome ev = None \<or> outcome ev = Some Resolved"

definition settles :: "'e completion \<Rightarrow> ('r, 'id, 'p, 'a, 'e) event list \<Rightarrow> bool" where
  "settles c evs \<longleftrightarrow>
     (if c = Resolved then list_all quiet evs
      else evs \<noteq> [] \<and> outcome (last evs) = Some c \<and> list_all quiet (butlast evs))"

text \<open>The events of a lifecycle method that resolved.\<close>

definition passed :: "('id, 'a) lifecycle \<Rightarrow> ('r, 'id, 'p, 'a, 'e) event list \<Rightarrow> bool" where
  "passed m evs \<longleftrightarrow> evs = [Invoke m] \<or> evs = [Invoke m, Hook m Resolved]"

definition behaves ::
  "('r, 'id, 'p, 'h, 'a, 'e, 'w) collaborators \<Rightarrow> 'a \<Rightarrow> (('r, 'id, 'p, 'a, 'e) event \<Rightarrow> bool) \<Rightarrow>
   ('r, 'id, 'p, 'h, 'a, 'e, 'w) action \<Rightarrow> bool"
where
  "behaves im cliArgs P f \<longleftrightarrow>
     (\<forall>s c evs s'. f s = Some (c, evs, s') \<longrightarrow>
        replay im cliArgs evs s = Some s' \<and> settles c evs \<and> list_all P evs)"

subsection \<open>The phases in the order of the specification\<close>

text \<open>
  The events of a run in which every awaited call resolves and no collaborator touches
  the objects of the installer, phase after phase as the specification lists them, for
  options \<open>opts\<close> and step objects \<open>objs\<close>. A lifecycle phase is the call of the method,
  followed by the call of the hook when the options have one.
\<close>

definition hook_events ::
  "('id, 'a) lifecycle \<Rightarrow> 'h option \<Rightarrow> ('r, 'id, 'p, 'a, 'e) event list"
where
  "hook_events m h = Invoke m # (case h of None \<Rightarrow> [] | Some f \<Rightarrow> [Hook m Resolved])"

definition frontmatter_events :: "'h installerOptions \<Rightarrow> ('r, 'id, 'p, 'a, 'e) event list" where
  "frontmatter_events opts =
     [Log_branded (''Welcome to the installer for '' @ packageName opts),
      Log_branded (packageDescription opts),
      Log_info (''This package is authored and supported by '' @ packageOwner opts),
      Log_info (''For additional documentation and support please visit '' @ packageRepoLink opts),
      Console_log]"

definition dispatch_events ::
  "('r, 'id, 'p, 'h, 'a, 'e, 'w) collaborators \<Rightarrow> 'a \<Rightarrow> 'r \<Rightarrow> ('id, 'p) executor \<Rightarrow>
   ('r, 'id, 'p, 'a, 'e) event list"
where
  "dispatch_events im cliArgs r step =
     (if isFileTransformExecutor im step then [Execute FileTransform r step cliArgs Resolved]
      else if isAddDependencyExecutor im step then [Execute AddDependency r step cliArgs Resolved]
      else if isNewFileExecutor im step then [Execute NewFile r step cliArgs Resolved]
      else [])"

definition step_events ::
  "('r, 'id, 'p, 'h, 'a, 'e, 'w) collaborators \<Rightarrow> 'h installerOptions \<Rightarrow>
   ('r \<Rightarrow> ('id, 'p) executor) \<Rightarrow> 'a \<Rightarrow> 'r \<Rightarrow> ('r, 'id, 'p, 'a, 'e) event list"
where
  "step_events im opts objs cliArgs r =
     Console_log # hook_events (BeforeEach (stepId (objs r))) (beforeEach opts)
     @ LogExecutorFrontmatter (objs r) # dispatch_events im cliArgs r (objs r)
     @ hook_events (AfterEach (stepId (objs r))) (afterEach opts)"

definition success_events :: "'h installerOptions \<Rightarrow> ('r, 'id, 'p, 'a, 'e) event list" where
  "success_events opts =
     [Console_log,
      Log_success (''Installer complete, '' @ packageName opts
                   @ '' is now be configured for your app!'')]"

definition install_events ::
  "('r, 'id, 'p, 'h, 'a, 'e, 'w) collaborators \<Rightarrow> ('r, 'h) installer \<Rightarrow>
   ('r \<Rightarrow> ('id, 'p) executor) \<Rightarrow> 'a \<Rightarrow> ('r, 'id, 'p, 'a, 'e) event list"
where
  "install_events im inst objs cliArgs =
     hook_events PreInstall (preInstall (options inst))
     @ concat (map (step_events im (options inst) objs cliArgs) (steps inst))
     @ hook_events PostInstall (postInstall (options inst))
     @ success_events (options inst)"

definition run_events ::
  "('r, 'id, 'p, 'h, 'a, 'e, 'w) collaborators \<Rightarrow> ('r, 'h) installer \<Rightarrow>
   ('r \<Rightarrow> ('id, 'p) executor) \<Rightarrow> 'a \<Rightarrow> ('r, 'id, 'p, 'a, 'e) event list"
where
  "run_events im inst objs cliArgs =
     frontmatter_events (options inst) @ [Confirmation confirmationText Resolved]
     @ hook_events (ValidateArgs cliArgs) (validateArgs (options inst))
     @ install_events im inst objs cliArgs"

text \<open>
  A call that did not resolve is interrupted: it produced the expected events up to an
  awaited call, which settled as the whole call did, and nothing of what was to follow.
  A list of events follows an expected list when the call resolved and produced exactly
  that list, or was interrupted in it.
\<close>

definition interrupted ::
  "'e completion \<Rightarrow> ('r, 'id, 'p, 'a, 'e) event list \<Rightarrow> ('r, 'id, 'p, 'a, 'e) event list \<Rightarrow> bool"
where
  "interrupted c evs expected \<longleftrightarrow>
     (\<exists>pre ev post. evs = pre @ [ev] \<and> outcome ev = Some c \<and> expected = pre @ settled ev # post)"

definition follows ::
  "'e completion \<Rightarrow> ('r, 'id, 'p, 'a, 'e) event list \<Rightarrow> ('r, 'id, 'p, 'a, 'e) event list \<Rightarrow> bool"
where
  "follows c evs expected \<longleftrightarrow>
     (if c = Resolved then evs = expected else interrupted c evs expected)"

subsection \<open>Collaborators that leave the installer alone\<close>

text \<open>
  A state has the installer of another when the options, the steps array and the step
  objects are the same in both. Collaborators preserve the installer when no hook, no
  executor and no prompt ever changes any of them.
\<close>

definition unchanged ::
  "('r, 'id, 'p, 'h, 'w) state \<Rightarrow> ('r, 'id, 'p, 'h, 'w) state \<Rightarrow> bool"
where
  "unchanged s s' \<longleftrightarrow> this s' = this s \<and> objects s' = objects s"

definition preserves :: "('r, 'id, 'p, 'h, 'a, 'e, 'w) collaborators \<Rightarrow> bool" where
  "preserves im \<longleftrightarrow>
     (\<forall>h m s. unchanged s (snd (call im h m s)))
     \<and> (\<forall>k r a s. unchanged s (snd (executorOf im k r a s)))
     \<and> (\<forall>t s. unchanged s (snd (waitForConfirmation im t s)))"

text \<open>
  A method conforms to an expected list when, in every state, it returns, leaves the
  installer unchanged and follows the list expected for that installer.
\<close>

definition conforms ::
  "('r, 'id, 'p, 'h, 'a, 'e, 'w) action \<Rightarrow>
   (('r, 'h) installer \<Rightarrow> ('r \<Rightarrow> ('id, 'p) executor) \<Rightarrow> ('r, 'id, 'p, 'a, 'e) event list) \<Rightarrow> bool"
where
  "conforms f expected \<longleftrightarrow>
     (\<forall>s. \<exists>c evs s'. f s = Some (c, evs, s') \<and> unchanged s s'
                      \<and> follows c evs (expected (this s) (objects s)))"

subsection \<open>Sample installers\<close>

text \<open>
  Step objects are numbered; the object of number \<open>r\<close> has \<open>r\<close> as its \<open>stepId\<close>, and a
  payload that tells its kind.
\<close>

definition sampleObjects :: "nat \<Rightarrow> (nat, string) executor" where
  "sampleObjects r =
     \<lparr>stepId = r,
      payload = (if r = 1 then ''file-transform''
                 else if r = 2 \<or> r = 13 then ''add-dependency''
                 else if r = 7 then ''new-file''
                 else ''unknown'')\<rparr>"

definition transformStep :: nat where "transformStep = 1"

definition dependencyStep :: nat where "dependencyStep = 2"

definition unknownStep :: nat where "unknownStep = 3"

definition blockedStep :: nat where "blockedStep = 7"

definition failingStep :: nat where "failingStep = 13"

text \<open>
  The function values of the samples. The first three leave the installer alone:
  \<open>Count\<close> counts its calls in the world, \<open>CheckArgs\<close> rejects an empty argument list,
  \<open>NotReady\<close> fails for the step numbered 7. The others change the objects of the
  installer: \<open>Push r\<close> pushes the step \<open>r\<close> onto the steps array as long as the array has
  fewer than two elements, \<open>Shift\<close> removes the first element of the array, and
  \<open>Forget\<close> deletes the hook \<open>postInstall\<close> from the options.
\<close>

datatype sampleHook = Count | CheckArgs | NotReady | Push nat | Shift | Forget

fun sampleCall ::
  "sampleHook \<Rightarrow> (nat, string list) lifecycle \<Rightarrow> (nat, nat, string, sampleHook, nat) state \<Rightarrow>
   string completion \<times> (nat, nat, string, sampleHook, nat) state"
where
  "sampleCall Count m s = (Resolved, s\<lparr>world := world s + 1\<rparr>)"
| "sampleCall CheckArgs (ValidateArgs cliArgs) s =
     (if cliArgs = [] then Rejected ''bad args'' else Resolved, s\<lparr>world := world s + 1\<rparr>)"
| "sampleCall CheckArgs m s = (Resolved, s\<lparr>world := world s + 1\<rparr>)"
| "sampleCall NotReady (BeforeEach sid) s =
     (if sid = 7 then Rejected ''not ready'' else Resolved, s\<lparr>world := world s + 1\<rparr>)"
| "sampleCall NotReady m s = (Resolved, s\<lparr>world := world s + 1\<rparr>)"
| "sampleCall (Push r) m s =
     (Resolved,
      if length (steps (this s)) < 2
      then s\<lparr>this := (this s)\<lparr>steps := steps (this s) @ [r]\<rparr>\<rparr> else s)"
| "sampleCall Shift m s = (Resolved, s\<lparr>this := (this s)\<lparr>steps := tl (steps (this s))\<rparr>\<rparr>)"
| "sampleCall Forget m s =
     (Resolved, s\<lparr>this := (this s)\<lparr>options := (options (this s))\<lparr>postInstall := None\<rparr>\<rparr>\<rparr>)"

text \<open>The same function values, called by collaborators that never touch the installer.\<close>

fun quietCall ::
  "sampleHook \<Rightarrow> (nat, string list) lifecycle \<Rightarrow> (nat, nat, string, sampleHook, nat) state \<Rightarrow>
   string completion \<times> (nat, nat, string, sampleHook, nat) state"
where
  "quietCall CheckArgs m s = sampleCall CheckArgs m s"
| "quietCall NotReady m s = sampleCall NotReady m s"
| "quietCall h m s = sampleCall Count m s"

text \<open>
  Collaborators that tell the kind of a step by its payload and count their calls in the
  world; the executor of dependencies fails on the step numbered 13.
\<close>

definition sampleCollaborators ::
  "(nat, nat, string, sampleHook, string list, string, nat) collaborators"
where
  "sampleCollaborators =
     \<lparr>isFileTransformExecutor = (\<lambda>step. payload step = ''file-transform''),
      isAddDependencyExecutor = (\<lambda>step. payload step = ''add-dependency''),
      isNewFileExecutor = (\<lambda>step. payload step = ''new-file''),
      fileTransformExecutor = (\<lambda>r cliArgs s. (Resolved, s\<lparr>world := world s + 1\<rparr>)),
      addDependencyExecutor =
        (\<lambda>r cliArgs s. (if r = 13 then Rejected ''install failed'' else Resolved,
                         s\<lparr>world := world s + 1\<rparr>)),
      newFileExecutor = (\<lambda>r cliArgs s. (Resolved, s\<lparr>world := world s + 1\<rparr>)),
      waitForConfirmation = (\<lambda>t s. (Resolved, s)),
      call = quietCall\<rparr>"

text \<open>The same, with a user who never presses enter.\<close>

definition silentCollaborators ::
  "(nat, nat, string, sampleHook, string list, string, nat) collaborators"
where
  "silentCollaborators = sampleCollaborators\<lparr>waitForConfirmation := (\<lambda>t s. (Pending, s))\<rparr>"

text \<open>Collaborators whose last two predicates accept every step.\<close>

definition eagerCollaborators ::
  "(nat, nat, string, sampleHook, string list, string, nat) collaborators"
where
  "eagerCollaborators =
     sampleCollaborators\<lparr>isAddDependencyExecutor := (\<lambda>step. True),
                          isNewFileExecutor := (\<lambda>step. True)\<rparr>"

text \<open>Collaborators whose hooks do change the objects of the installer.\<close>

definition meddlingCollaborators ::
  "(nat, nat, string, sampleHook, string list, string, nat) collaborators"
where
  "meddlingCollaborators = sampleCollaborators\<lparr>call := sampleCall\<rparr>"

text \<open>Options without any hook.\<close>

definition plainOptions :: "sampleHook installerOptions" where
  "plainOptions =
     \<lparr>packageName = ''tailwind'', packageDescription = ''Utility-first CSS'',
      packageOwner = ''blitz'', packageRepoLink = ''https://example.org/tailwind'',
      validateArgs = None, preInstall = None, beforeEach = None, afterEach = None,
      postInstall = None\<rparr>"

text \<open>
  Options with every hook: \<open>validateArgs\<close> rejects an empty argument list, and
  \<open>beforeEach\<close> fails on the step numbered 7.
\<close>

definition hookedOptions :: "sampleHook installerOptions" where
  "hookedOptions =
     plainOptions
       \<lparr>validateArgs := Some CheckArgs, preInstall := Some Count, beforeEach := Some NotReady,
        afterEach := Some Count, postInstall := Some Count\<rparr>"

text \<open>The state in which a run of an installer built from options and steps starts.\<close>

definition start ::
  "sampleHook installerOptions \<Rightarrow> nat list \<Rightarrow> (nat, nat, string, sampleHook, nat) state"
where
  "start opts sts = \<lparr>this = Installer opts sts, objects = sampleObjects, world = 0\<rparr>"

section \<open>Sequencing\<close>

lemma andThen_emit:
  "andThen (emit ev) g s =
     (case g s of None \<Rightarrow> None | Some (c, evs, s') \<Rightarrow> Some (c, ev # evs, s'))"
  by (simp add: andThen_def emit_def split: option.splits prod.splits)

lemma andThen_cases:
  assumes "andThen f g s = Some (c, evs, s')"
  obtains (stop) "f s = Some (c, evs, s')" "c \<noteq> Resolved"
        | (go) evs1 s1 evs2 where "f s = Some (Resolved, evs1, s1)" "g s1 = Some (c, evs2, s')"
                                  "evs = evs1 @ evs2"
proof (cases "f s")
  case None
  with assms show ?thesis by (simp add: andThen_def)
next
  case (Some res)
  obtain c1 evs1 s1 where res: "res = (c1, evs1, s1)" by (cases res) auto
  show ?thesis
  proof (cases "c1 = Resolved")
    case True
    with assms Some res obtain c2 evs2 s2 where g: "g s1 = Some (c2, evs2, s2)"
      by (cases "g s1") (auto simp: andThen_def)
    with assms Some res True have "c = c2" "evs = evs1 @ evs2" "s' = s2"
      by (auto simp: andThen_def)
    with Some res True g show ?thesis by (auto intro: go)
  next
    case False
    with assms Some res have "c = c1" "evs = evs1" "s' = s1"
      by (auto simp: andThen_def split: completion.splits)
    with Some res False show ?thesis by (auto intro: stop)
  qed
qed

lemma andThen_Some:
  assumes "f s = Some (c1, evs1, s1)"
  shows "andThen f g s =
           (if c1 = Resolved
            then (case g s1 of None \<Rightarrow> None | Some (c, evs2, s') \<Rightarrow> Some (c, evs1 @ evs2, s'))
            else Some (c1, evs1, s1))"
  using assms by (cases c1) (simp_all add: andThen_def)

text \<open>The loop is its body followed by the rest of the loop.\<close>

lemma for_steps_eq:
  "for_steps im cliArgs i s =
     (if i < length (steps (this s)) then
        andThen (run_step im cliArgs (steps (this s) ! i)) (for_steps im cliArgs (Suc i)) s
      else Some (Resolved, [], s))"
proof (cases "i < length (steps (this s))")
  case False
  then show ?thesis by (simp add: for_steps.simps)
next
  case True
  show ?thesis
  proof (cases "run_step im cliArgs (steps (this s) ! i) s")
    case None
    with True show ?thesis by (subst for_steps.simps) (simp add: andThen_def)
  next
    case (Some res)
    obtain c1 evs1 s1 where res: "res = (c1, evs1, s1)" by (cases res) auto
    show ?thesis
    proof (cases "for_steps im cliArgs (Suc i) s1")
      case None
      with True Some res show ?thesis
        by (subst for_steps.simps) (cases c1; simp add: andThen_def)
    next
      case (Some res2)
      obtain c2 evs2 s2 where res2: "res2 = (c2, evs2, s2)" by (cases res2) auto
      with True Some \<open>run_step im cliArgs (steps (this s) ! i) s = Some res\<close> res show ?thesis
        by (subst for_steps.simps) (cases c1; simp add: andThen_def)
    qed
  qed
qed

section \<open>What each method returns\<close>

lemma displayFrontmatter_eq:
  "displayFrontmatter im s =
     (case waitForConfirmation im confirmationText s of
        (c, s') \<Rightarrow> Some (c, frontmatter_events (options (this s)) @ [Confirmation confirmationText c],
                          s'))"
  by (simp add: displayFrontmatter_def andThen_emit await_def frontmatter_events_def
           split: prod.splits)

lemma Installer_validateArgs_eq:
  "Installer_validateArgs im cliArgs s =
     (case validateArgs (options (this s)) of
        None \<Rightarrow> Some (Resolved, [Invoke (ValidateArgs cliArgs)], s)
      | Some h \<Rightarrow> (case call im h (ValidateArgs cliArgs) s of
                    (c, s') \<Rightarrow> Some (c, [Invoke (ValidateArgs cliArgs),
                                          Hook (ValidateArgs cliArgs) c], s')))"
  by (simp add: Installer_validateArgs_def andThen_emit await_def split: option.splits prod.splits)

lemma Installer_preInstall_eq:
  "Installer_preInstall im s =
     (case preInstall (options (this s)) of
        None \<Rightarrow> Some (Resolved, [Invoke PreInstall], s)
      | Some h \<Rightarrow> (case call im h PreInstall s of
                    (c, s') \<Rightarrow> Some (c, [Invoke PreInstall, Hook PreInstall c], s')))"
  by (simp add: Installer_preInstall_def andThen_emit await_def split: option.splits prod.splits)

lemma Installer_beforeEach_eq:
  "Installer_beforeEach im sid s =
     (case beforeEach (options (this s)) of
        None \<Rightarrow> Some (Resolved, [Invoke (BeforeEach sid)], s)
      | Some h \<Rightarrow> (case call im h (BeforeEach sid) s of
                    (c, s') \<Rightarrow> Some (c, [Invoke (BeforeEach sid), Hook (BeforeEach sid) c], s')))"
  by (simp add: Installer_beforeEach_def andThen_emit await_def split: option.splits prod.splits)

lemma Installer_afterEach_eq:
  "Installer_afterEach im sid s =
     (case afterEach (options (this s)) of
        None \<Rightarrow> Some (Resolved, [Invoke (AfterEach sid)], s)
      | Some h \<Rightarrow> (case call im h (AfterEach sid) s of
                    (c, s') \<Rightarrow> Some (c, [Invoke (AfterEach sid), Hook (AfterEach sid) c], s')))"
  by (simp add: Installer_afterEach_def andThen_emit await_def split: option.splits prod.splits)

lemma Installer_postInstall_eq:
  "Installer_postInstall im s =
     (case postInstall (options (this s)) of
        None \<Rightarrow> Some (Resolved, [Invoke PostInstall], s)
      | Some h \<Rightarrow> (case call im h PostInstall s of
                    (c, s') \<Rightarrow> Some (c, [Invoke PostInstall, Hook PostInstall c], s')))"
  by (simp add: Installer_postInstall_def andThen_emit await_def split: option.splits prod.splits)

lemma dispatch_eq:
  "dispatch im cliArgs r s =
     (case firstMatch im (objects s r) of
        None \<Rightarrow> Some (Resolved, [], s)
      | Some k \<Rightarrow> (case executorOf im k r cliArgs s of
                    (c, s') \<Rightarrow> Some (c, [Execute k r (objects s r) cliArgs c], s')))"
  by (simp add: dispatch_def firstMatch_def await_def split: prod.splits)

section \<open>Every event is a real call\<close>

lemma performAll_append:
  "performAll im cliArgs (xs @ ys) ds =
     (case performAll im cliArgs xs ds of None \<Rightarrow> None | Some ds' \<Rightarrow> performAll im cliArgs ys ds')"
  by (induction xs arbitrary: ds) (simp_all split: option.splits)

lemma replay_append:
  "replay im cliArgs xs s = Some s1 \<Longrightarrow> replay im cliArgs (xs @ ys) s = replay im cliArgs ys s1"
  by (auto simp: replay_def performAll_append split: option.splits if_splits)

lemma replay_Nil [simp]: "replay im cliArgs [] s = Some s"
  by (simp add: replay_def)

lemma replay_plain:
  assumes "\<And>ev. ev \<in> set evs \<Longrightarrow> perform im cliArgs ev (Nothing, s) = Some (Nothing, s)"
  shows "replay im cliArgs evs s = Some s"
proof -
  from assms have "performAll im cliArgs evs (Nothing, s) = Some (Nothing, s)"
    by (induction evs) simp_all
  then show ?thesis by (simp add: replay_def)
qed

lemma quiet_simps [simp]:
  "quiet (Log_branded t)" "quiet (Log_info t)" "quiet (Log_error e)" "quiet (Log_success t)"
  "quiet Console_log" "quiet (LogExecutorFrontmatter step)" "quiet (Invoke m)"
  "quiet (Confirmation t c) \<longleftrightarrow> c = Resolved"
  "quiet (Hook m c) \<longleftrightarrow> c = Resolved"
  "quiet (Execute k r step a c) \<longleftrightarrow> c = Resolved"
  by (auto simp: quiet_def)

lemma settles_append:
  assumes "settles Resolved evs1" and "settles c evs2"
  shows "settles c (evs1 @ evs2)"
proof (cases "c = Resolved")
  case True
  with assms show ?thesis by (simp add: settles_def)
next
  case False
  with assms(2) have "evs2 \<noteq> []" by (simp add: settles_def)
  with assms False show ?thesis
    by (simp add: settles_def butlast_append)
qed

lemma behaves_andThen:
  assumes "behaves im cliArgs P f" and "behaves im cliArgs P g"
  shows "behaves im cliArgs P (andThen f g)"
  unfolding behaves_def
proof (intro allI impI)
  fix s c evs s'
  assume "andThen f g s = Some (c, evs, s')"
  then show "replay im cliArgs evs s = Some s' \<and> settles c evs \<and> list_all P evs"
  proof (cases rule: andThen_cases)
    case stop
    with assms(1) show ?thesis by (simp add: behaves_def)
  next
    case (go evs1 s1 evs2)
    from assms(1) go(1) have "replay im cliArgs evs1 s = Some s1" "settles Resolved evs1"
      "list_all P evs1"
      by (auto simp: behaves_def)
    moreover from assms(2) go(2) have "replay im cliArgs evs2 s1 = Some s'" "settles c evs2"
      "list_all P evs2"
      by (auto simp: behaves_def)
    ultimately show ?thesis using go(3)
      by (simp add: replay_append settles_append)
  qed
qed

lemma behaves_emit:
  assumes "\<And>s. perform im cliArgs (ev s) (Nothing, s) = Some (Nothing, s)"
    and "\<And>s. outcome (ev s) = None" and "\<And>s. P (ev s)"
  shows "behaves im cliArgs P (\<lambda>s. emit (ev s) s)"
  unfolding behaves_def
proof (intro allI impI)
  fix s c evs s'
  assume "emit (ev s) s = Some (c, evs, s')"
  then have e: "c = Resolved" "evs = [ev s]" "s' = s" by (auto simp: emit_def)
  from assms(1) [of s] have "replay im cliArgs [ev s] s = Some s" by (simp add: replay_def)
  moreover from assms(2) [of s] have "quiet (ev s)" by (simp add: quiet_def)
  ultimately show "replay im cliArgs evs s = Some s' \<and> settles c evs \<and> list_all P evs"
    using e assms(3) by (simp add: settles_def)
qed

lemma behaves_emit_const:
  assumes "\<And>s. perform im cliArgs ev (Nothing, s) = Some (Nothing, s)"
    and "outcome ev = None" and "P ev"
  shows "behaves im cliArgs P (emit ev)"
  using behaves_emit [of im cliArgs "\<lambda>s. ev" P] assms by simp

lemma behaves_weaken:
  "behaves im cliArgs P f \<Longrightarrow> (\<And>ev. P ev \<Longrightarrow> Q ev) \<Longrightarrow> behaves im cliArgs Q f"
  unfolding behaves_def list_all_iff by blast

lemma settles_single: "outcome ev = Some c \<Longrightarrow> settles c [ev]"
  by (simp add: settles_def quiet_def)

lemma behaves_lifecycle:
  assumes eq: "\<And>s. f s = (case hookOf m (options (this s)) of
                  None \<Rightarrow> Some (Resolved, [Invoke m], s)
                | Some h \<Rightarrow> (case call im h m s of (c, s') \<Rightarrow> Some (c, [Invoke m, Hook m c], s')))"
    and fw: "forwards cliArgs m" and p: "P (Invoke m)" "\<And>c. P (Hook m c)"
  shows "behaves im cliArgs P f"
  unfolding behaves_def
proof (intro allI impI)
  fix s c evs s'
  assume r: "f s = Some (c, evs, s')"
  show "replay im cliArgs evs s = Some s' \<and> settles c evs \<and> list_all P evs"
  proof (cases "hookOf m (options (this s))")
    case None
    with r eq [of s] p fw show ?thesis by (auto simp: settles_def replay_def)
  next
    case (Some h)
    with r eq [of s] have e: "c = fst (call im h m s)" "s' = snd (call im h m s)"
      "evs = [Invoke m, Hook m c]"
      by (auto split: prod.splits)
    have "settles c ([Invoke m] @ [Hook m c])"
      by (rule settles_append) (simp_all add: settles_def)
    with e Some fw p show ?thesis by (simp add: replay_def)
  qed
qed

lemma behaves_validateArgs:
  assumes "P (Invoke (ValidateArgs cliArgs))" "\<And>c. P (Hook (ValidateArgs cliArgs) c)"
  shows "behaves im cliArgs P (Installer_validateArgs im cliArgs)"
  by (rule behaves_lifecycle [where m = "ValidateArgs cliArgs"])
     (simp_all add: Installer_validateArgs_eq assms)

lemma behaves_preInstall:
  assumes "P (Invoke PreInstall)" "\<And>c. P (Hook PreInstall c)"
  shows "behaves im cliArgs P (Installer_preInstall im)"
  by (rule behaves_lifecycle [where m = PreInstall]) (simp_all add: Installer_preInstall_eq assms)

lemma behaves_postInstall:
  assumes "P (Invoke PostInstall)" "\<And>c. P (Hook PostInstall c)"
  shows "behaves im cliArgs P (Installer_postInstall im)"
  by (rule behaves_lifecycle [where m = PostInstall]) (simp_all add: Installer_postInstall_eq assms)

lemma behaves_beforeEach: "behaves im cliArgs inLoop (Installer_beforeEach im sid)"
  by (rule behaves_lifecycle [where m = "BeforeEach sid"]) (simp_all add: Installer_beforeEach_eq)

lemma behaves_afterEach: "behaves im cliArgs inLoop (Installer_afterEach im sid)"
  by (rule behaves_lifecycle [where m = "AfterEach sid"]) (simp_all add: Installer_afterEach_eq)

lemma behaves_state:
  "(\<And>s0. behaves im cliArgs P (f s0)) \<Longrightarrow> behaves im cliArgs P (\<lambda>s. f s s)"
  unfolding behaves_def by blast

text \<open>The rendering of a step and its dispatch go together.\<close>

lemma behaves_dispatch:
  "behaves im cliArgs inLoop
     (andThen (\<lambda>s. emit (LogExecutorFrontmatter (objects s r)) s) (dispatch im cliArgs r))"
  unfolding behaves_def
  by (auto simp: andThen_def emit_def dispatch_eq settles_def replay_def
           split: option.splits prod.splits completion.splits)

lemma andThen_assoc: "andThen f (andThen g h) = andThen (andThen f g) h"
proof
  fix s
  show "andThen f (andThen g h) s = andThen (andThen f g) h s"
  proof (cases "f s")
    case None
    then show ?thesis by (simp add: andThen_def)
  next
    case (Some res)
    obtain c evs s1 where res: "res = (c, evs, s1)" by (cases res) auto
    show ?thesis
    proof (cases c)
      case Resolved
      show ?thesis
      proof (cases "g s1")
        case None
        with Some res Resolved show ?thesis by (simp add: andThen_def)
      next
        case g: (Some res2)
        obtain c2 evs2 s2 where res2: "res2 = (c2, evs2, s2)" by (cases res2) auto
        with Some res Resolved g show ?thesis
          by (cases c2; cases "h s2") (auto simp: andThen_def)
      qed
    qed (use Some res in \<open>simp_all add: andThen_def\<close>)
  qed
qed

lemma behaves_run_step: "behaves im cliArgs inLoop (run_step im cliArgs r)"
proof -
  have e: "run_step im cliArgs r =
          andThen (emit Console_log)
            (andThen (\<lambda>s. Installer_beforeEach im (stepId (objects s r)) s)
               (andThen (andThen (\<lambda>s. emit (LogExecutorFrontmatter (objects s r)) s)
                                 (dispatch im cliArgs r))
                        (\<lambda>s. Installer_afterEach im (stepId (objects s r)) s)))"
    unfolding run_step_def by (simp add: andThen_assoc)
  show ?thesis
    unfolding e
    by (intro behaves_andThen behaves_emit_const behaves_dispatch
          behaves_state [of im cliArgs inLoop "\<lambda>s0. Installer_beforeEach im (stepId (objects s0 r))"]
          behaves_state [of im cliArgs inLoop "\<lambda>s0. Installer_afterEach im (stepId (objects s0 r))"]
          behaves_beforeEach behaves_afterEach)
       simp_all
qed

lemma for_steps_behaves:
  assumes "for_steps im cliArgs i s = Some res"
  shows "replay im cliArgs (fst (snd res)) s = Some (snd (snd res))
         \<and> settles (fst res) (fst (snd res)) \<and> list_all inLoop (fst (snd res))"
  using assms
proof (induction im cliArgs i s res rule: for_steps.raw_induct [rotated 1, consumes 1])
  case (1 loop im cliArgs i s res)
  have l: "behaves im cliArgs inLoop (loop im cliArgs (Suc i))"
    unfolding behaves_def using 1(1) by fastforce
  show ?case
  proof (cases "i < length (steps (this s))")
    case False
    with 1(2) show ?thesis by (auto simp: settles_def)
  next
    case True
    with 1(2) have "andThen (run_step im cliArgs (steps (this s) ! i)) (loop im cliArgs (Suc i)) s
                      = Some res"
      by (auto simp: andThen_def split: Option.bind_splits completion.splits if_splits)
    with behaves_andThen [OF behaves_run_step l, of "steps (this s) ! i"] show ?thesis
      by (cases res) (auto simp: behaves_def)
  qed
qed

lemma behaves_run_steps: "behaves im cliArgs inLoop (run_steps im cliArgs)"
  unfolding behaves_def run_steps_def using for_steps_behaves by fastforce

section \<open>The shape of every run\<close>

lemma lifecycle_shape:
  assumes eq: "\<And>s. f s = (case hookOf m (options (this s)) of
                  None \<Rightarrow> Some (Resolved, [Invoke m], s)
                | Some h \<Rightarrow> (case call im h m s of (c, s') \<Rightarrow> Some (c, [Invoke m, Hook m c], s')))"
    and r: "f s = Some (c, evs, s')"
  shows "if c = Resolved then passed m evs else evs = [Invoke m, Hook m c]"
  using r unfolding eq [of s]
  by (auto simp: passed_def split: option.splits prod.splits)

lemma validateArgs_shape:
  assumes "Installer_validateArgs im cliArgs s = Some (c, evs, s')"
  shows "if c = Resolved then passed (ValidateArgs cliArgs) evs
         else evs = [Invoke (ValidateArgs cliArgs), Hook (ValidateArgs cliArgs) c]"
  by (rule lifecycle_shape [where m = "ValidateArgs cliArgs" and f = "Installer_validateArgs im cliArgs",
        OF _ assms]) (simp add: Installer_validateArgs_eq)

lemma preInstall_shape:
  assumes "Installer_preInstall im s = Some (c, evs, s')"
  shows "if c = Resolved then passed PreInstall evs else evs = [Invoke PreInstall, Hook PreInstall c]"
  by (rule lifecycle_shape [where m = PreInstall and f = "Installer_preInstall im", OF _ assms])
     (simp add: Installer_preInstall_eq)

lemma postInstall_shape:
  assumes "Installer_postInstall im s = Some (c, evs, s')"
  shows "if c = Resolved then passed PostInstall evs
         else evs = [Invoke PostInstall, Hook PostInstall c]"
  by (rule lifecycle_shape [where m = PostInstall and f = "Installer_postInstall im", OF _ assms])
     (simp add: Installer_postInstall_eq)

lemma displayFrontmatter_shape:
  assumes "displayFrontmatter im s = Some (c, evs, s')"
  shows "evs = frontmatter_events (options (this s)) @ [Confirmation confirmationText c]"
    and "c = fst (waitForConfirmation im confirmationText s)"
    and "s' = snd (waitForConfirmation im confirmationText s)"
  using assms by (auto simp: displayFrontmatter_eq split: prod.splits)

lemma install_shape:
  assumes "install im cliArgs s = Some (c, evs, s')"
  obtains
    (preInstall) "c \<noteq> Resolved" "evs = [Invoke PreInstall, Hook PreInstall c]"
  | (loop) ps ls where "c \<noteq> Resolved" "evs = ps @ ls" "passed PreInstall ps"
      "list_all inLoop ls" "settles c ls"
  | (postInstall) ps ls where "c \<noteq> Resolved"
      "evs = ps @ ls @ [Invoke PostInstall, Hook PostInstall c]" "passed PreInstall ps"
      "list_all inLoop ls" "list_all quiet ls"
  | (complete) ps ls qs msg where "c = Resolved"
      "evs = ps @ ls @ qs @ [Console_log, Log_success msg]" "passed PreInstall ps"
      "list_all inLoop ls" "list_all quiet ls" "passed PostInstall qs"
  using assms unfolding install_def
proof (cases rule: andThen_cases)
  case stop
  from preInstall_shape [OF stop(1)] stop(2) show ?thesis by (auto intro: preInstall)
next
  case (go evs1 s1 evs2)
  from preInstall_shape [OF go(1)] have p: "passed PreInstall evs1" by simp
  from go(2) show ?thesis
  proof (cases rule: andThen_cases)
    case stop
    from behaves_run_steps [of im cliArgs] stop(1) have "list_all inLoop evs2" "settles c evs2"
      by (auto simp: behaves_def)
    with stop(2) p \<open>evs = evs1 @ evs2\<close> show ?thesis by (auto intro: loop)
  next
    case (go evs3 s3 evs4)
    from behaves_run_steps [of im cliArgs] go(1) have l: "list_all inLoop evs3" "list_all quiet evs3"
      by (auto simp: behaves_def settles_def)
    from go(2) show ?thesis
    proof (cases rule: andThen_cases)
      case stop
      from postInstall_shape [OF stop(1)] stop(2) l p \<open>evs = evs1 @ evs2\<close> go(3)
      show ?thesis by (auto intro: postInstall)
    next
      case (go evs5 s5 evs6)
      from postInstall_shape [OF go(1)] have q: "passed PostInstall evs5" by simp
      from go(2) obtain msg where "c = Resolved" "evs6 = [Console_log, Log_success msg]"
        by (auto simp: andThen_emit emit_def)
      with q l p \<open>evs = evs1 @ evs2\<close> \<open>evs2 = evs3 @ evs4\<close> go(3) show ?thesis
        by (auto intro: complete)
    qed
  qed
qed

lemma run_shape:
  assumes "run im cliArgs s = Some (c, evs, s')"
  obtains
    (prompt) "c \<noteq> Resolved"
      "evs = frontmatter_events (options (this s)) @ [Confirmation confirmationText c]"
  | (invalid) e where "c = Resolved"
      "evs = frontmatter_events (options (this s))
             @ [Confirmation confirmationText Resolved, Invoke (ValidateArgs cliArgs),
                Hook (ValidateArgs cliArgs) (Rejected e), Log_error e]"
  | (validating) "c = Pending"
      "evs = frontmatter_events (options (this s))
             @ [Confirmation confirmationText Resolved, Invoke (ValidateArgs cliArgs),
                Hook (ValidateArgs cliArgs) Pending]"
  | (preInstall) vs where "c \<noteq> Resolved" "passed (ValidateArgs cliArgs) vs"
      "evs = frontmatter_events (options (this s)) @ [Confirmation confirmationText Resolved]
             @ vs @ [Invoke PreInstall, Hook PreInstall c]"
  | (loop) vs ps ls where "c \<noteq> Resolved" "passed (ValidateArgs cliArgs) vs"
      "passed PreInstall ps" "list_all inLoop ls" "settles c ls"
      "evs = frontmatter_events (options (this s)) @ [Confirmation confirmationText Resolved]
             @ vs @ ps @ ls"
  | (postInstall) vs ps ls where "c \<noteq> Resolved" "passed (ValidateArgs cliArgs) vs"
      "passed PreInstall ps" "list_all inLoop ls" "list_all quiet ls"
      "evs = frontmatter_events (options (this s)) @ [Confirmation confirmationText Resolved]
             @ vs @ ps @ ls @ [Invoke PostInstall, Hook PostInstall c]"
  | (complete) vs ps ls qs msg where "c = Resolved" "passed (ValidateArgs cliArgs) vs"
      "passed PreInstall ps" "list_all inLoop ls" "list_all quiet ls" "passed PostInstall qs"
      "evs = frontmatter_events (options (this s)) @ [Confirmation confirmationText Resolved]
             @ vs @ ps @ ls @ qs @ [Console_log, Log_success msg]"
  using assms unfolding run_def
proof (cases rule: andThen_cases)
  case stop
  from displayFrontmatter_shape(1) [OF stop(1)] stop(2) show ?thesis by (auto intro: prompt)
next
  case (go evs1 s1 evs2)
  note d = displayFrontmatter_shape(1) [OF go(1)]
  from go(2) obtain c2 evs3 s3 where v: "Installer_validateArgs im cliArgs s1 = Some (c2, evs3, s3)"
    by (cases "Installer_validateArgs im cliArgs s1") auto
  note vs = validateArgs_shape [OF v]
  show ?thesis
  proof (cases c2)
    case (Rejected e)
    with go(2) v have "c = Resolved" "evs2 = evs3 @ [Log_error e]" by auto
    with vs d go(3) Rejected show ?thesis by (auto intro: invalid)
  next
    case Pending
    with go(2) v have "c = Pending" "evs2 = evs3" by auto
    with vs d go(3) Pending show ?thesis by (auto intro: validating)
  next
    case Resolved
    with go(2) v obtain evs4 where i: "install im cliArgs s3 = Some (c, evs4, s')"
      and e: "evs2 = evs3 @ evs4"
      by (cases "install im cliArgs s3") auto
    from vs Resolved have pv: "passed (ValidateArgs cliArgs) evs3" by simp
    have pre: "evs = frontmatter_events (options (this s)) @ [Confirmation confirmationText Resolved]
                 @ evs3 @ evs4"
      using go(3) d e by simp
    from i show ?thesis
    proof (cases rule: install_shape)
      case preInstall
      with pre pv show ?thesis by (auto intro: that(4))
    next
      case (loop ps ls)
      with pre pv show ?thesis by (auto intro: that(5))
    next
      case (postInstall ps ls)
      with pre pv show ?thesis by (auto intro: that(6))
    next
      case (complete ps ls qs msg)
      with pre pv show ?thesis by (auto intro: that(7))
    qed
  qed
qed

lemma displayFrontmatter_replay:
  assumes "displayFrontmatter im s = Some (c, evs, s')"
  shows "replay im cliArgs evs s = Some s'"
  using displayFrontmatter_shape [OF assms]
  by (simp add: replay_def frontmatter_events_def)

lemma run_replay:
  assumes "run im cliArgs s = Some (c, evs, s')"
  shows "replay im cliArgs evs s = Some s'"
  using assms unfolding run_def
proof (cases rule: andThen_cases)
  case stop
  from displayFrontmatter_replay [OF stop(1)] show ?thesis .
next
  case (go evs1 s1 evs2)
  from displayFrontmatter_replay [OF go(1)] have 1: "replay im cliArgs evs1 s = Some s1" .
  from go(2) obtain c2 evs3 s3 where v: "Installer_validateArgs im cliArgs s1 = Some (c2, evs3, s3)"
    by (cases "Installer_validateArgs im cliArgs s1") auto
  from behaves_validateArgs [of "\<lambda>ev. True" cliArgs im] v
  have 2: "replay im cliArgs evs3 s1 = Some s3" by (auto simp: behaves_def)
  have l: "replay im cliArgs [Log_error e] s3 = Some s3" for e
    by (simp add: replay_def)
  show ?thesis
  proof (cases "c2 = Resolved")
    case False
    with go(2) v have "s' = s3" "evs2 = evs3 \<or> (\<exists>e. evs2 = evs3 @ [Log_error e])"
      by (cases c2; auto)+
    with 1 2 l go(3) show ?thesis by (auto simp: replay_append)
  next
    case True
    with go(2) v obtain evs4 where i: "install im cliArgs s3 = Some (c, evs4, s')"
      and e: "evs2 = evs3 @ evs4"
      by (cases "install im cliArgs s3") auto
    have "behaves im cliArgs (\<lambda>ev. True) (install im cliArgs)"
      unfolding install_def
      by (intro behaves_andThen behaves_preInstall behaves_postInstall behaves_emit_const
            behaves_emit behaves_weaken [OF behaves_run_steps]) simp_all
    with i have "replay im cliArgs evs4 s3 = Some s'" by (auto simp: behaves_def)
    with 1 2 e go(3) show ?thesis by (simp add: replay_append)
  qed
qed

section \<open>Runs that leave the installer alone\<close>

subsection \<open>Conformance\<close>

lemma unchanged_refl [simp]: "unchanged s s"
  by (simp add: unchanged_def)

lemma unchanged_trans: "unchanged s s1 \<Longrightarrow> unchanged s1 s2 \<Longrightarrow> unchanged s s2"
  by (simp add: unchanged_def)

lemma follows_append:
  "follows Resolved evs1 exp1 \<Longrightarrow> follows c evs2 exp2 \<Longrightarrow> follows c (evs1 @ evs2) (exp1 @ exp2)"
  unfolding follows_def interrupted_def by auto

lemma follows_stop:
  "c \<noteq> Resolved \<Longrightarrow> follows c evs exp1 \<Longrightarrow> follows c evs (exp1 @ exp2)"
  unfolding follows_def interrupted_def by auto

lemma conformsD:
  assumes "conforms f expected"
  obtains c evs s' where "f s = Some (c, evs, s')" "unchanged s s'"
    "follows c evs (expected (this s) (objects s))"
  using assms unfolding conforms_def by blast

lemma conforms_andThen:
  assumes "conforms f I" and "conforms g J"
  shows "conforms (andThen f g) (\<lambda>t ob. I t ob @ J t ob)"
  unfolding conforms_def
proof
  fix s
  from assms(1) obtain c1 evs1 s1 where f: "f s = Some (c1, evs1, s1)" "unchanged s s1"
    "follows c1 evs1 (I (this s) (objects s))"
    by (rule conformsD)
  show "\<exists>c evs s'. andThen f g s = Some (c, evs, s') \<and> unchanged s s'
          \<and> follows c evs (I (this s) (objects s) @ J (this s) (objects s))"
  proof (cases "c1 = Resolved")
    case True
    from assms(2) obtain c2 evs2 s2 where g: "g s1 = Some (c2, evs2, s2)" "unchanged s1 s2"
      "follows c2 evs2 (J (this s1) (objects s1))"
      by (rule conformsD)
    from f(2) g(3) have "follows c2 evs2 (J (this s) (objects s))"
      by (simp add: unchanged_def)
    with f g(1,2) True show ?thesis
      by (auto simp: andThen_Some intro: follows_append unchanged_trans)
  next
    case False
    with f show ?thesis by (auto simp: andThen_Some intro: follows_stop)
  qed
qed

lemma conforms_emit:
  "(\<And>t ob. outcome (ev t ob) = None) \<Longrightarrow>
     conforms (\<lambda>s. emit (ev (this s) (objects s)) s) (\<lambda>t ob. [ev t ob])"
  by (auto simp: conforms_def emit_def follows_def)

lemma conforms_emit_const: "outcome ev = None \<Longrightarrow> conforms (emit ev) (\<lambda>t ob. [ev])"
  by (auto simp: conforms_def emit_def follows_def)

lemma conforms_read:
  "(\<And>ob0. conforms (f ob0) (E ob0)) \<Longrightarrow> conforms (\<lambda>s. f (objects s) s) (\<lambda>t ob. E ob t ob)"
  unfolding conforms_def by blast

lemma preserves_call: "preserves im \<Longrightarrow> unchanged s (snd (call im h m s))"
  by (simp add: preserves_def)

lemma preserves_executor: "preserves im \<Longrightarrow> unchanged s (snd (executorOf im k r a s))"
  by (simp add: preserves_def)

lemma preserves_prompt: "preserves im \<Longrightarrow> unchanged s (snd (waitForConfirmation im t s))"
  by (simp add: preserves_def)

lemma follows_hook:
  "follows c [Invoke m, Hook m c] (hook_events m (Some h))"
proof (cases "c = Resolved")
  case True
  then show ?thesis by (simp add: follows_def hook_events_def)
next
  case False
  have "[Invoke m, Hook m c] = [Invoke m] @ [Hook m c]"
    "hook_events m (Some h) = [Invoke m] @ settled (Hook m c) # []"
    "outcome (Hook m c) = Some c"
    by (simp_all add: hook_events_def)
  then have "interrupted c [Invoke m, Hook m c] (hook_events m (Some h))"
    unfolding interrupted_def by blast
  with False show ?thesis by (simp add: follows_def)
qed

lemma conforms_lifecycle:
  assumes p: "preserves im"
    and eq: "\<And>s. f s = (case hookOf m (options (this s)) of
                  None \<Rightarrow> Some (Resolved, [Invoke m], s)
                | Some h \<Rightarrow> (case call im h m s of (c, s') \<Rightarrow> Some (c, [Invoke m, Hook m c], s')))"
  shows "conforms f (\<lambda>t ob. hook_events m (hookOf m (options t)))"
  unfolding conforms_def
proof
  fix s
  show "\<exists>c evs s'. f s = Some (c, evs, s') \<and> unchanged s s'
          \<and> follows c evs (hook_events m (hookOf m (options (this s))))"
  proof (cases "hookOf m (options (this s))")
    case None
    with eq [of s] show ?thesis by (simp add: follows_def hook_events_def)
  next
    case (Some h)
    with eq [of s] preserves_call [OF p, of s h m] follows_hook [of "fst (call im h m s)" m h]
    show ?thesis by (auto split: prod.splits)
  qed
qed

lemma conforms_validateArgs:
  "preserves im \<Longrightarrow> conforms (Installer_validateArgs im cliArgs)
     (\<lambda>t ob. hook_events (ValidateArgs cliArgs) (validateArgs (options t)))"
  using conforms_lifecycle [where m = "ValidateArgs cliArgs" and f = "Installer_validateArgs im cliArgs"
          and im = im]
  by (simp add: Installer_validateArgs_eq)

lemma conforms_preInstall:
  "preserves im \<Longrightarrow> conforms (Installer_preInstall im)
     (\<lambda>t ob. hook_events PreInstall (preInstall (options t)))"
  using conforms_lifecycle [where m = PreInstall and f = "Installer_preInstall im" and im = im]
  by (simp add: Installer_preInstall_eq)

lemma conforms_postInstall:
  "preserves im \<Longrightarrow> conforms (Installer_postInstall im)
     (\<lambda>t ob. hook_events PostInstall (postInstall (options t)))"
  using conforms_lifecycle [where m = PostInstall and f = "Installer_postInstall im" and im = im]
  by (simp add: Installer_postInstall_eq)

lemma conforms_beforeEach:
  "preserves im \<Longrightarrow> conforms (Installer_beforeEach im sid)
     (\<lambda>t ob. hook_events (BeforeEach sid) (beforeEach (options t)))"
  using conforms_lifecycle [where m = "BeforeEach sid" and f = "Installer_beforeEach im sid"
          and im = im]
  by (simp add: Installer_beforeEach_eq)

lemma conforms_afterEach:
  "preserves im \<Longrightarrow> conforms (Installer_afterEach im sid)
     (\<lambda>t ob. hook_events (AfterEach sid) (afterEach (options t)))"
  using conforms_lifecycle [where m = "AfterEach sid" and f = "Installer_afterEach im sid"
          and im = im]
  by (simp add: Installer_afterEach_eq)

lemma follows_execute:
  "follows c [Execute k r step a c] [Execute k r step a Resolved]"
proof (cases "c = Resolved")
  case True
  then show ?thesis by (simp add: follows_def)
next
  case False
  have "[Execute k r step a c] = [] @ [Execute k r step a c]"
    "[Execute k r step a Resolved] = [] @ settled (Execute k r step a c) # []"
    "outcome (Execute k r step a c) = Some c"
    by simp_all
  then have "interrupted c [Execute k r step a c] [Execute k r step a Resolved]"
    unfolding interrupted_def by blast
  with False show ?thesis by (simp add: follows_def)
qed

lemma dispatch_events_firstMatch:
  "dispatch_events im cliArgs r step =
     (case firstMatch im step of None \<Rightarrow> [] | Some k \<Rightarrow> [Execute k r step cliArgs Resolved])"
  by (simp add: dispatch_events_def firstMatch_def)

lemma conforms_dispatch:
  assumes p: "preserves im"
  shows "conforms (dispatch im cliArgs r) (\<lambda>t ob. dispatch_events im cliArgs r (ob r))"
  unfolding conforms_def
proof
  fix s
  show "\<exists>c evs s'. dispatch im cliArgs r s = Some (c, evs, s') \<and> unchanged s s'
          \<and> follows c evs (dispatch_events im cliArgs r (objects s r))"
  proof (cases "firstMatch im (objects s r)")
    case None
    then show ?thesis by (simp add: dispatch_eq dispatch_events_firstMatch follows_def)
  next
    case (Some k)
    with preserves_executor [OF p, of s k r cliArgs]
      follows_execute [of "fst (executorOf im k r cliArgs s)" k r "objects s r" cliArgs]
    show ?thesis by (auto simp: dispatch_eq dispatch_events_firstMatch split: prod.splits)
  qed
qed

lemma conforms_run_step:
  assumes p: "preserves im"
  shows "conforms (run_step im cliArgs r) (\<lambda>t ob. step_events im (options t) ob cliArgs r)"
proof -
  have b: "conforms (\<lambda>s. Installer_beforeEach im (stepId (objects s r)) s)
             (\<lambda>t ob. hook_events (BeforeEach (stepId (ob r))) (beforeEach (options t)))"
    by (rule conforms_read [of "\<lambda>ob0. Installer_beforeEach im (stepId (ob0 r))"
          "\<lambda>ob0 t ob. hook_events (BeforeEach (stepId (ob0 r))) (beforeEach (options t))"])
       (rule conforms_beforeEach [OF p])
  have a: "conforms (\<lambda>s. Installer_afterEach im (stepId (objects s r)) s)
             (\<lambda>t ob. hook_events (AfterEach (stepId (ob r))) (afterEach (options t)))"
    by (rule conforms_read [of "\<lambda>ob0. Installer_afterEach im (stepId (ob0 r))"
          "\<lambda>ob0 t ob. hook_events (AfterEach (stepId (ob0 r))) (afterEach (options t))"])
       (rule conforms_afterEach [OF p])
  have l: "conforms (\<lambda>s. emit (LogExecutorFrontmatter (objects s r)) s)
             (\<lambda>t ob. [LogExecutorFrontmatter (ob r)])"
    by (rule conforms_emit [of "\<lambda>t ob. LogExecutorFrontmatter (ob r)"]) simp
  have c: "conforms (emit Console_log) (\<lambda>t ob. [Console_log])"
    by (rule conforms_emit_const) simp
  from conforms_andThen [OF c conforms_andThen [OF b conforms_andThen [OF l
         conforms_andThen [OF conforms_dispatch [OF p] a]]]]
  show ?thesis
    by (simp add: run_step_def step_events_def [abs_def])
qed

subsection \<open>Where such a run stops\<close>

lemma drop_nth_Cons: "i < length xs \<Longrightarrow> drop i xs = xs ! i # drop (Suc i) xs"
  by (simp add: Cons_nth_drop_Suc)

text \<open>The loop, located: which iteration was interrupted.\<close>

lemma for_steps_cases:
  assumes p: "preserves im"
  shows "\<exists>c evs s'. for_steps im cliArgs i s = Some (c, evs, s') \<and> unchanged s s' \<and>
         (if c = Resolved
          then evs = concat (map (step_events im (options (this s)) (objects s) cliArgs)
                                 (drop i (steps (this s))))
          else \<exists>j<length (steps (this s)). i \<le> j \<and> (\<exists>evs'.
                 evs = concat (map (step_events im (options (this s)) (objects s) cliArgs)
                                   (take (j - i) (drop i (steps (this s))))) @ evs'
                 \<and> interrupted c evs'
                      (step_events im (options (this s)) (objects s) cliArgs (steps (this s) ! j))))"
proof (induction "length (steps (this s)) - i" arbitrary: i s)
  case 0
  then show ?case by (subst for_steps_eq) simp
next
  case (Suc n)
  then have i: "i < length (steps (this s))" by simp
  from conforms_run_step [OF p, of cliArgs "steps (this s) ! i"]
  obtain c1 evs1 s1 where x: "run_step im cliArgs (steps (this s) ! i) s = Some (c1, evs1, s1)"
    "unchanged s s1"
    "follows c1 evs1 (step_events im (options (this s)) (objects s) cliArgs (steps (this s) ! i))"
    by (rule conformsD)
  have e: "for_steps im cliArgs i s
             = andThen (run_step im cliArgs (steps (this s) ! i)) (for_steps im cliArgs (Suc i)) s"
    using i by (subst for_steps_eq) simp
  show ?case
  proof (cases "c1 = Resolved")
    case False
    with x(3) have "interrupted c1 evs1
        (step_events im (options (this s)) (objects s) cliArgs (steps (this s) ! i))"
      by (simp add: follows_def)
    then have "\<exists>j<length (steps (this s)). i \<le> j \<and> (\<exists>evs'.
                 evs1 = concat (map (step_events im (options (this s)) (objects s) cliArgs)
                                   (take (j - i) (drop i (steps (this s))))) @ evs'
                 \<and> interrupted c1 evs'
                      (step_events im (options (this s)) (objects s) cliArgs (steps (this s) ! j)))"
      using i by (intro exI [of _ i]) simp
    with False x(1,2) show ?thesis unfolding e by (simp add: andThen_Some)
  next
    case True
    from x(2) have t: "this s1 = this s" "objects s1 = objects s" by (simp_all add: unchanged_def)
    from Suc(2) t have "n = length (steps (this s1)) - Suc i" by simp
    from Suc(1) [OF this, unfolded t]
    obtain c2 evs2 s2 where r: "for_steps im cliArgs (Suc i) s1 = Some (c2, evs2, s2)"
      "unchanged s1 s2"
      "if c2 = Resolved
       then evs2 = concat (map (step_events im (options (this s)) (objects s) cliArgs)
                               (drop (Suc i) (steps (this s))))
       else \<exists>j<length (steps (this s)). Suc i \<le> j \<and> (\<exists>evs'.
              evs2 = concat (map (step_events im (options (this s)) (objects s) cliArgs)
                                 (take (j - Suc i) (drop (Suc i) (steps (this s))))) @ evs'
              \<and> interrupted c2 evs'
                   (step_events im (options (this s)) (objects s) cliArgs (steps (this s) ! j)))"
      by blast
    from x(3) True have e1: "evs1 = step_events im (options (this s)) (objects s) cliArgs
                                       (steps (this s) ! i)"
      by (simp add: follows_def)
    have u: "unchanged s s2" using x(2) r(2) by (rule unchanged_trans)
    have res: "for_steps im cliArgs i s = Some (c2, evs1 @ evs2, s2)"
      unfolding e using x(1) r(1) True by (simp add: andThen_Some)
    show ?thesis
    proof (cases "c2 = Resolved")
      case True
      with r(3) e1 i res u show ?thesis by (simp add: drop_nth_Cons)
    next
      case False
      with r(3) obtain j evs' where j: "j < length (steps (this s))" "Suc i \<le> j"
        "evs2 = concat (map (step_events im (options (this s)) (objects s) cliArgs)
                                 (take (j - Suc i) (drop (Suc i) (steps (this s))))) @ evs'"
        "interrupted c2 evs'
           (step_events im (options (this s)) (objects s) cliArgs (steps (this s) ! j))"
        by auto
      from j(2) have "j - i = Suc (j - Suc i)" by simp
      with i have "take (j - i) (drop i (steps (this s)))
                     = steps (this s) ! i # take (j - Suc i) (drop (Suc i) (steps (this s)))"
        by (simp add: drop_nth_Cons)
      with j e1 have "j < length (steps (this s)) \<and> i \<le> j \<and> (\<exists>evs'.
              evs1 @ evs2 = concat (map (step_events im (options (this s)) (objects s) cliArgs)
                                 (take (j - i) (drop i (steps (this s))))) @ evs'
              \<and> interrupted c2 evs'
                   (step_events im (options (this s)) (objects s) cliArgs (steps (this s) ! j)))"
        by simp
      then have "\<exists>j<length (steps (this s)). i \<le> j \<and> (\<exists>evs'.
              evs1 @ evs2 = concat (map (step_events im (options (this s)) (objects s) cliArgs)
                                 (take (j - i) (drop i (steps (this s))))) @ evs'
              \<and> interrupted c2 evs'
                   (step_events im (options (this s)) (objects s) cliArgs (steps (this s) ! j)))"
        by blast
      with False res u show ?thesis by simp
    qed
  qed
qed

lemma run_steps_cases:
  assumes p: "preserves im"
  obtains c evs s' where "run_steps im cliArgs s = Some (c, evs, s')" "unchanged s s'"
    "c = Resolved \<Longrightarrow>
       evs = concat (map (step_events im (options (this s)) (objects s) cliArgs) (steps (this s)))"
    "c \<noteq> Resolved \<Longrightarrow> \<exists>j<length (steps (this s)). \<exists>evs'.
       evs = concat (map (step_events im (options (this s)) (objects s) cliArgs)
                         (take j (steps (this s)))) @ evs'
       \<and> interrupted c evs'
            (step_events im (options (this s)) (objects s) cliArgs (steps (this s) ! j))"
proof -
  from for_steps_cases [OF p, of cliArgs 0 s]
  obtain c evs s' where r: "for_steps im cliArgs 0 s = Some (c, evs, s')" "unchanged s s'"
    "if c = Resolved
     then evs = concat (map (step_events im (options (this s)) (objects s) cliArgs)
                            (drop 0 (steps (this s))))
     else \<exists>j<length (steps (this s)). 0 \<le> j \<and> (\<exists>evs'.
            evs = concat (map (step_events im (options (this s)) (objects s) cliArgs)
                              (take (j - 0) (drop 0 (steps (this s))))) @ evs'
            \<and> interrupted c evs'
                 (step_events im (options (this s)) (objects s) cliArgs (steps (this s) ! j)))"
    by blast
  show ?thesis
  proof (rule that [of c evs s'])
    show "run_steps im cliArgs s = Some (c, evs, s')" using r(1) by (simp add: run_steps_def)
    show "unchanged s s'" by (rule r(2))
    show "evs = concat (map (step_events im (options (this s)) (objects s) cliArgs) (steps (this s)))"
      if "c = Resolved" using r(3) that by simp
    show "\<exists>j<length (steps (this s)). \<exists>evs'.
       evs = concat (map (step_events im (options (this s)) (objects s) cliArgs)
                         (take j (steps (this s)))) @ evs'
       \<and> interrupted c evs'
            (step_events im (options (this s)) (objects s) cliArgs (steps (this s) ! j))"
      if "c \<noteq> Resolved" using r(3) that by simp
  qed
qed

lemma conforms_result:
  assumes "conforms f expected" and "f s = Some (c, evs, s')"
  shows "unchanged s s'" and "follows c evs (expected (this s) (objects s))"
  using assms unfolding conforms_def by (metis option.inject prod.inject)+

lemma lifecycle_cases:
  assumes p: "preserves im"
    and r: "(case hopt of None \<Rightarrow> Some (Resolved, [Invoke m], s)
             | Some h \<Rightarrow> (case call im h m s of
                            (c, s') \<Rightarrow> Some (c, [Invoke m, Hook m c], s'))) = Some (c, evs, s')"
  shows "unchanged s s'"
    and "c = Resolved \<Longrightarrow> evs = hook_events m hopt"
    and "c \<noteq> Resolved \<Longrightarrow> hopt \<noteq> None \<and> evs = [Invoke m, Hook m c]"
proof -
  have "unchanged s s' \<and> (c = Resolved \<longrightarrow> evs = hook_events m hopt)
        \<and> (c \<noteq> Resolved \<longrightarrow> hopt \<noteq> None \<and> evs = [Invoke m, Hook m c])"
  proof (cases hopt)
    case None
    with r show ?thesis by (auto simp: hook_events_def)
  next
    case (Some h)
    with r have "call im h m s = (c, s')" "evs = [Invoke m, Hook m c]"
      by (auto split: prod.splits)
    with preserves_call [OF p, of s h m] Some show ?thesis
      by (simp add: hook_events_def)
  qed
  then show "unchanged s s'"
    and "c = Resolved \<Longrightarrow> evs = hook_events m hopt"
    and "c \<noteq> Resolved \<Longrightarrow> hopt \<noteq> None \<and> evs = [Invoke m, Hook m c]"
    by simp_all
qed

lemma validateArgs_cases:
  assumes "preserves im" and "Installer_validateArgs im cliArgs s = Some (c, evs, s')"
  shows "unchanged s s'"
    and "c = Resolved \<Longrightarrow>
           evs = hook_events (ValidateArgs cliArgs) (validateArgs (options (this s)))"
    and "c \<noteq> Resolved \<Longrightarrow> validateArgs (options (this s)) \<noteq> None
           \<and> evs = [Invoke (ValidateArgs cliArgs), Hook (ValidateArgs cliArgs) c]"
  using lifecycle_cases [OF assms(1) assms(2) [unfolded Installer_validateArgs_eq]]
  by blast+

lemma preInstall_cases:
  assumes "preserves im" and "Installer_preInstall im s = Some (c, evs, s')"
  shows "unchanged s s'"
    and "c = Resolved \<Longrightarrow> evs = hook_events PreInstall (preInstall (options (this s)))"
    and "c \<noteq> Resolved \<Longrightarrow> preInstall (options (this s)) \<noteq> None
           \<and> evs = [Invoke PreInstall, Hook PreInstall c]"
  using lifecycle_cases [OF assms(1) assms(2) [unfolded Installer_preInstall_eq]]
  by blast+

lemma postInstall_cases:
  assumes "preserves im" and "Installer_postInstall im s = Some (c, evs, s')"
  shows "unchanged s s'"
    and "c = Resolved \<Longrightarrow> evs = hook_events PostInstall (postInstall (options (this s)))"
    and "c \<noteq> Resolved \<Longrightarrow> postInstall (options (this s)) \<noteq> None
           \<and> evs = [Invoke PostInstall, Hook PostInstall c]"
  using lifecycle_cases [OF assms(1) assms(2) [unfolded Installer_postInstall_eq]]
  by blast+

lemma lifecycle_returns:
  "\<exists>c evs s'. (case hopt of None \<Rightarrow> Some (Resolved, [Invoke m], s)
             | Some h \<Rightarrow> (case call im h m s of
                            (c, s') \<Rightarrow> Some (c, [Invoke m, Hook m c], s'))) = Some (c, evs, s')"
  by (cases hopt) (auto split: prod.splits)

lemma displayFrontmatter_returns:
  "\<exists>c evs s'. displayFrontmatter im s = Some (c, evs, s')"
  by (cases "waitForConfirmation im confirmationText s") (simp add: displayFrontmatter_eq)

lemma displayFrontmatter_cases:
  assumes "preserves im" and "displayFrontmatter im s = Some (c, evs, s')"
  shows "unchanged s s'"
    and "evs = frontmatter_events (options (this s)) @ [Confirmation confirmationText c]"
proof -
  from assms(2) have "waitForConfirmation im confirmationText s = (c, s')"
    "evs = frontmatter_events (options (this s)) @ [Confirmation confirmationText c]"
    by (auto simp: displayFrontmatter_eq split: prod.splits)
  with preserves_prompt [OF assms(1), of s confirmationText]
  show "unchanged s s'"
    and "evs = frontmatter_events (options (this s)) @ [Confirmation confirmationText c]"
    by simp_all
qed

lemma install_cases:
  assumes p: "preserves im" and r: "install im cliArgs s = Some (c, evs, s')"
  obtains
    (preInstall) "c \<noteq> Resolved" "preInstall (options (this s)) \<noteq> None"
      "evs = [Invoke PreInstall, Hook PreInstall c]" "unchanged s s'"
  | (step) i evs' where "c \<noteq> Resolved" "i < length (steps (this s))"
      "evs = hook_events PreInstall (preInstall (options (this s)))
             @ concat (map (step_events im (options (this s)) (objects s) cliArgs)
                           (take i (steps (this s))))
             @ evs'"
      "interrupted c evs'
         (step_events im (options (this s)) (objects s) cliArgs (steps (this s) ! i))"
      "unchanged s s'"
  | (postInstall) "c \<noteq> Resolved" "postInstall (options (this s)) \<noteq> None"
      "evs = hook_events PreInstall (preInstall (options (this s)))
             @ concat (map (step_events im (options (this s)) (objects s) cliArgs) (steps (this s)))
             @ [Invoke PostInstall, Hook PostInstall c]" "unchanged s s'"
  | (complete) "c = Resolved" "evs = install_events im (this s) (objects s) cliArgs"
      "unchanged s s'"
  using r unfolding install_def
proof (cases rule: andThen_cases)
  case stop
  from preInstall_cases [OF p stop(1)] stop(2) show ?thesis
    by (auto intro: preInstall)
next
  case (go evs1 s1 evs2)
  note a = preInstall_cases [OF p go(1)]
  from a(1) have t: "this s1 = this s" "objects s1 = objects s" by (simp_all add: unchanged_def)
  from run_steps_cases [OF p, of cliArgs s1]
  obtain cl evsl sl where l: "run_steps im cliArgs s1 = Some (cl, evsl, sl)" "unchanged s1 sl"
    "cl = Resolved \<Longrightarrow>
       evsl = concat (map (step_events im (options (this s)) (objects s) cliArgs) (steps (this s)))"
    "cl \<noteq> Resolved \<Longrightarrow> \<exists>j<length (steps (this s)). \<exists>evs'.
       evsl = concat (map (step_events im (options (this s)) (objects s) cliArgs)
                         (take j (steps (this s)))) @ evs'
       \<and> interrupted cl evs'
            (step_events im (options (this s)) (objects s) cliArgs (steps (this s) ! j))"
    unfolding t by blast
  from go(2) show ?thesis
  proof (cases rule: andThen_cases)
    case stop
    with l(1) have "cl = c" "evsl = evs2" "sl = s'" by simp_all
    with l stop(2) a go(3) show ?thesis
      by (auto intro: step unchanged_trans)
  next
    case (go evs3 s3 evs4)
    with l(1) have e3: "cl = Resolved" "evsl = evs3" "sl = s3" by simp_all
    from a(1) l(2) e3 have u3: "unchanged s s3" by (auto intro: unchanged_trans)
    then have t3: "this s3 = this s" "objects s3 = objects s" by (simp_all add: unchanged_def)
    from go(2) show ?thesis
    proof (cases rule: andThen_cases)
      case stop
      from postInstall_cases [OF p stop(1)] stop(2) l(3) e3 a u3 t3 \<open>evs = evs1 @ evs2\<close> go(3)
      show ?thesis by (auto intro: postInstall unchanged_trans)
    next
      case (go evs5 s5 evs6)
      note q = postInstall_cases [OF p go(1)]
      from q(1) u3 have u5: "unchanged s s5" by (auto intro: unchanged_trans)
      then have t5: "this s5 = this s" by (simp add: unchanged_def)
      from go(2) have "c = Resolved" "s' = s5"
        "evs6 = success_events (options (this s5))"
        by (auto simp: andThen_emit emit_def success_events_def)
      with q l(3) e3 a u5 t3 t5 \<open>evs = evs1 @ evs2\<close> \<open>evs2 = evs3 @ evs4\<close> go(3) show ?thesis
        by (auto intro: complete simp: install_events_def)
    qed
  qed
qed

lemma run_cases:
  assumes p: "preserves im" and r: "run im cliArgs s = Some (c, evs, s')"
  obtains
    (prompt) "c \<noteq> Resolved"
      "evs = frontmatter_events (options (this s)) @ [Confirmation confirmationText c]"
  | (invalid) e where "c = Resolved" "validateArgs (options (this s)) \<noteq> None"
      "evs = frontmatter_events (options (this s))
             @ [Confirmation confirmationText Resolved, Invoke (ValidateArgs cliArgs),
                Hook (ValidateArgs cliArgs) (Rejected e), Log_error e]"
  | (validating) "c = Pending" "validateArgs (options (this s)) \<noteq> None"
      "evs = frontmatter_events (options (this s))
             @ [Confirmation confirmationText Resolved, Invoke (ValidateArgs cliArgs),
                Hook (ValidateArgs cliArgs) Pending]"
  | (preInstall) "c \<noteq> Resolved" "preInstall (options (this s)) \<noteq> None"
      "evs = frontmatter_events (options (this s)) @ [Confirmation confirmationText Resolved]
             @ hook_events (ValidateArgs cliArgs) (validateArgs (options (this s)))
             @ [Invoke PreInstall, Hook PreInstall c]"
  | (step) i evs' where "c \<noteq> Resolved" "i < length (steps (this s))"
      "evs = frontmatter_events (options (this s)) @ [Confirmation confirmationText Resolved]
             @ hook_events (ValidateArgs cliArgs) (validateArgs (options (this s)))
             @ hook_events PreInstall (preInstall (options (this s)))
             @ concat (map (step_events im (options (this s)) (objects s) cliArgs)
                           (take i (steps (this s))))
             @ evs'"
      "interrupted c evs'
         (step_events im (options (this s)) (objects s) cliArgs (steps (this s) ! i))"
  | (postInstall) "c \<noteq> Resolved" "postInstall (options (this s)) \<noteq> None"
      "evs = frontmatter_events (options (this s)) @ [Confirmation confirmationText Resolved]
             @ hook_events (ValidateArgs cliArgs) (validateArgs (options (this s)))
             @ hook_events PreInstall (preInstall (options (this s)))
             @ concat (map (step_events im (options (this s)) (objects s) cliArgs) (steps (this s)))
             @ [Invoke PostInstall, Hook PostInstall c]"
  | (complete) "c = Resolved" "evs = run_events im (this s) (objects s) cliArgs"
  using r unfolding run_def
proof (cases rule: andThen_cases)
  case stop
  from displayFrontmatter_cases [OF p stop(1)] stop(2) show ?thesis
    by (auto intro: prompt)
next
  case (go evs1 s1 evs2)
  note d = displayFrontmatter_cases [OF p go(1)]
  from go(2) obtain c2 evs3 s3 where v: "Installer_validateArgs im cliArgs s1 = Some (c2, evs3, s3)"
    by (cases "Installer_validateArgs im cliArgs s1") auto
  note vc = validateArgs_cases [OF p v]
  from d(1) have t1: "this s1 = this s" "objects s1 = objects s" by (simp_all add: unchanged_def)
  show ?thesis
  proof (cases c2)
    case (Rejected e)
    with go(2) v have "c = Resolved" "evs2 = evs3 @ [Log_error e]" by auto
    with vc d go(3) Rejected t1 show ?thesis by (auto intro: invalid)
  next
    case Pending
    with go(2) v have "c = Pending" "evs2 = evs3" by auto
    with vc d go(3) Pending t1 show ?thesis by (auto intro: validating)
  next
    case Resolved
    with go(2) v obtain evs4 where i: "install im cliArgs s3 = Some (c, evs4, s')"
      and eq: "evs2 = evs3 @ evs4"
      by (cases "install im cliArgs s3") auto
    from vc(1) t1 have t: "this s3 = this s" "objects s3 = objects s"
      by (simp_all add: unchanged_def)
    have pre: "evs = frontmatter_events (options (this s)) @ [Confirmation confirmationText Resolved]
             @ hook_events (ValidateArgs cliArgs) (validateArgs (options (this s))) @ evs4"
      using go(3) d vc(2) Resolved eq t1 by simp
    from p i show ?thesis
    proof (cases rule: install_cases)
      case preInstall
      with pre t show ?thesis by (auto intro: that(4))
    next
      case (step i evs')
      with pre t show ?thesis by (auto intro: that(5))
    next
      case postInstall
      with pre t show ?thesis by (auto intro: that(6))
    next
      case complete
      with pre t show ?thesis by (auto intro: that(7) simp: run_events_def)
    qed
  qed
qed

text \<open>Such a run returns, and leaves the installer as it was.\<close>

lemma install_returns:
  assumes p: "preserves im"
  shows "\<exists>c evs s'. install im cliArgs s = Some (c, evs, s') \<and> unchanged s s'"
proof -
  obtain c1 evs1 s1 where a: "Installer_preInstall im s = Some (c1, evs1, s1)"
    unfolding Installer_preInstall_eq using lifecycle_returns by blast
  note ac = preInstall_cases [OF p a]
  show ?thesis
  proof (cases "c1 = Resolved")
    case False
    with a ac(1) show ?thesis by (simp add: install_def andThen_Some)
  next
    case True
    from run_steps_cases [OF p, of cliArgs s1]
    obtain cl evsl sl where l: "run_steps im cliArgs s1 = Some (cl, evsl, sl)" "unchanged s1 sl"
      by blast
    show ?thesis
    proof (cases "cl = Resolved")
      case False
      with a True l ac(1) show ?thesis
        by (auto simp: install_def andThen_Some intro: unchanged_trans)
    next
      case cl: True
      obtain c5 evs5 s5 where q: "Installer_postInstall im sl = Some (c5, evs5, s5)"
        unfolding Installer_postInstall_eq using lifecycle_returns by blast
      note qc = postInstall_cases [OF p q]
      from ac(1) l(2) qc(1) have "unchanged s s5" by (auto intro: unchanged_trans)
      with a True l cl q show ?thesis
        by (cases "c5 = Resolved")
           (auto simp: install_def andThen_Some andThen_emit emit_def)
    qed
  qed
qed

lemma run_returns:
  assumes p: "preserves im"
  shows "\<exists>c evs s'. run im cliArgs s = Some (c, evs, s') \<and> unchanged s s'"
proof -
  obtain c1 evs1 s1 where d: "displayFrontmatter im s = Some (c1, evs1, s1)"
    using displayFrontmatter_returns by blast
  note dc = displayFrontmatter_cases [OF p d]
  show ?thesis
  proof (cases "c1 = Resolved")
    case False
    with d dc(1) show ?thesis by (simp add: run_def andThen_Some)
  next
    case True
    obtain c2 evs2 s2 where v: "Installer_validateArgs im cliArgs s1 = Some (c2, evs2, s2)"
      unfolding Installer_validateArgs_eq using lifecycle_returns by blast
    note vc = validateArgs_cases [OF p v]
    from dc(1) vc(1) have u2: "unchanged s s2" by (rule unchanged_trans)
    from install_returns [OF p, of cliArgs s2]
    obtain c3 evs3 s3 where i: "install im cliArgs s2 = Some (c3, evs3, s3)" "unchanged s2 s3"
      by blast
    from u2 i(2) have "unchanged s s3" by (rule unchanged_trans)
    with d True v u2 i(1) show ?thesis
      by (cases c2) (auto simp: run_def andThen_Some)
  qed
qed

subsection \<open>The events of the expected lists\<close>

lemma in_hook_events:
  "x \<in> set (hook_events m h) \<longleftrightarrow> x = Invoke m \<or> (h \<noteq> None \<and> x = Hook m Resolved)"
  by (auto simp: hook_events_def split: option.splits)

lemma in_dispatch_events:
  "x \<in> set (dispatch_events im cliArgs r step) \<Longrightarrow> \<exists>k. x = Execute k r step cliArgs Resolved"
  by (auto simp: dispatch_events_def split: if_splits)

lemma in_frontmatter_events:
  "x \<in> set (frontmatter_events opts) \<Longrightarrow>
     (\<exists>t. x = Log_branded t) \<or> (\<exists>t. x = Log_info t) \<or> x = Console_log"
  by (auto simp: frontmatter_events_def)

lemma in_step_events:
  "x \<in> set (step_events im opts objs cliArgs r) \<Longrightarrow>
     x = Console_log \<or> x = LogExecutorFrontmatter (objs r)
     \<or> x = Invoke (BeforeEach (stepId (objs r)))
     \<or> (beforeEach opts \<noteq> None \<and> x = Hook (BeforeEach (stepId (objs r))) Resolved)
     \<or> x = Invoke (AfterEach (stepId (objs r)))
     \<or> (afterEach opts \<noteq> None \<and> x = Hook (AfterEach (stepId (objs r))) Resolved)
     \<or> (\<exists>k. x = Execute k r (objs r) cliArgs Resolved)"
  by (auto simp: step_events_def in_hook_events dest: in_dispatch_events)




lemma settled_step_events: "x \<in> set (step_events im opts objs cliArgs r) \<Longrightarrow> settled x = x"
  by (drule in_step_events) auto


subsection \<open>Interrupted lists\<close>

lemma interrupted_append_left:
  "interrupted c evs expected \<Longrightarrow> interrupted c (pre @ evs) (pre @ expected)"
  unfolding interrupted_def
  by (metis append.assoc)

lemma interrupted_append_right:
  "interrupted c evs expected \<Longrightarrow> interrupted c evs (expected @ post)"
  unfolding interrupted_def
  by (metis append.assoc append_Cons)

lemma interrupted_single: "outcome ev = Some c \<Longrightarrow> interrupted c [ev] [settled ev]"
  unfolding interrupted_def by (metis append_Nil)

lemma interrupted_hook:
  "h \<noteq> None \<Longrightarrow> interrupted c [Invoke m, Hook m c] (hook_events m h)"
proof -
  assume "h \<noteq> None"
  then have "hook_events m h = [Invoke m] @ settled (Hook m c) # []"
    by (auto simp: hook_events_def)
  moreover have "[Invoke m, Hook m c] = [Invoke m] @ [Hook m c]" by simp
  moreover have "outcome (Hook m c) = Some c" by simp
  ultimately show ?thesis unfolding interrupted_def by blast
qed

text \<open>The same, as a test on the two lists.\<close>

lemma interrupted_iff:
  "interrupted c evs expected \<longleftrightarrow>
     evs \<noteq> [] \<and> outcome (last evs) = Some c \<and> length evs \<le> length expected
     \<and> take (length evs) expected = butlast evs @ [settled (last evs)]"
proof
  assume "interrupted c evs expected"
  then show "evs \<noteq> [] \<and> outcome (last evs) = Some c \<and> length evs \<le> length expected
     \<and> take (length evs) expected = butlast evs @ [settled (last evs)]"
    unfolding interrupted_def by auto
next
  assume a: "evs \<noteq> [] \<and> outcome (last evs) = Some c \<and> length evs \<le> length expected
     \<and> take (length evs) expected = butlast evs @ [settled (last evs)]"
  then have "expected = (butlast evs @ [settled (last evs)]) @ drop (length evs) expected"
    by (metis append_take_drop_id)
  moreover from a have "evs = butlast evs @ [last evs]" by simp
  ultimately show "interrupted c evs expected"
    unfolding interrupted_def using a by (metis append.assoc append_Cons append_Nil)
qed

lemma interrupted_mem:
  assumes "interrupted c evs expected" and "\<And>x. x \<in> set expected \<Longrightarrow> settled x = x"
    and "x \<in> set evs"
  shows "settled x \<in> set expected"
  using assms unfolding interrupted_def by auto

lemma concat_take_nth_drop:
  "i < length xs \<Longrightarrow>
     concat (map f xs) = concat (map f (take i xs)) @ f (xs ! i) @ concat (map f (drop (Suc i) xs))"
  by (subst id_take_nth_drop [of i xs]) (simp_all del: append_take_drop_id)

lemma run_interrupted:
  assumes p: "preserves im" and r: "run im cliArgs s = Some (c, evs, s')" and n: "c \<noteq> Resolved"
  shows "interrupted c evs (run_events im (this s) (objects s) cliArgs)"
  using p r
proof (cases rule: run_cases)
  case prompt
  have "interrupted c (frontmatter_events (options (this s)) @ [Confirmation confirmationText c])
          (frontmatter_events (options (this s)) @ [settled (Confirmation confirmationText c)]
           @ (hook_events (ValidateArgs cliArgs) (validateArgs (options (this s)))
              @ install_events im (this s) (objects s) cliArgs))"
    by (intro interrupted_append_left interrupted_append_right interrupted_single) simp
  with prompt show ?thesis by (simp add: run_events_def)
next
  case (invalid e)
  with n show ?thesis by simp
next
  case validating
  have "interrupted c
          (frontmatter_events (options (this s)) @ [Confirmation confirmationText Resolved]
           @ [Invoke (ValidateArgs cliArgs), Hook (ValidateArgs cliArgs) c])
          (frontmatter_events (options (this s)) @ [Confirmation confirmationText Resolved]
           @ hook_events (ValidateArgs cliArgs) (validateArgs (options (this s)))
           @ install_events im (this s) (objects s) cliArgs)"
    using validating(2)
    by (intro interrupted_append_left interrupted_append_right interrupted_hook)
  with validating show ?thesis by (simp add: run_events_def)
next
  case preInstall
  have "interrupted c
          (frontmatter_events (options (this s)) @ [Confirmation confirmationText Resolved]
           @ hook_events (ValidateArgs cliArgs) (validateArgs (options (this s)))
           @ [Invoke PreInstall, Hook PreInstall c])
          (frontmatter_events (options (this s)) @ [Confirmation confirmationText Resolved]
           @ hook_events (ValidateArgs cliArgs) (validateArgs (options (this s)))
           @ hook_events PreInstall (preInstall (options (this s)))
           @ (concat (map (step_events im (options (this s)) (objects s) cliArgs) (steps (this s)))
              @ hook_events PostInstall (postInstall (options (this s)))
              @ success_events (options (this s))))"
    using preInstall(2)
    by (intro interrupted_append_left interrupted_append_right interrupted_hook)
  with preInstall show ?thesis by (simp add: run_events_def install_events_def)
next
  case (step i evs')
  have "interrupted c
          (frontmatter_events (options (this s)) @ [Confirmation confirmationText Resolved]
           @ hook_events (ValidateArgs cliArgs) (validateArgs (options (this s)))
           @ hook_events PreInstall (preInstall (options (this s)))
           @ concat (map (step_events im (options (this s)) (objects s) cliArgs)
                         (take i (steps (this s))))
           @ evs')
          (frontmatter_events (options (this s)) @ [Confirmation confirmationText Resolved]
           @ hook_events (ValidateArgs cliArgs) (validateArgs (options (this s)))
           @ hook_events PreInstall (preInstall (options (this s)))
           @ concat (map (step_events im (options (this s)) (objects s) cliArgs)
                         (take i (steps (this s))))
           @ step_events im (options (this s)) (objects s) cliArgs (steps (this s) ! i)
           @ (concat (map (step_events im (options (this s)) (objects s) cliArgs)
                          (drop (Suc i) (steps (this s))))
              @ hook_events PostInstall (postInstall (options (this s)))
              @ success_events (options (this s))))"
    using step(4)
    by (intro interrupted_append_left interrupted_append_right)
  with step(2,3) show ?thesis
    by (simp add: run_events_def install_events_def
          concat_take_nth_drop [of i "steps (this s)"
            "step_events im (options (this s)) (objects s) cliArgs"])
next
  case postInstall
  have "interrupted c
          (frontmatter_events (options (this s)) @ [Confirmation confirmationText Resolved]
           @ hook_events (ValidateArgs cliArgs) (validateArgs (options (this s)))
           @ hook_events PreInstall (preInstall (options (this s)))
           @ concat (map (step_events im (options (this s)) (objects s) cliArgs) (steps (this s)))
           @ [Invoke PostInstall, Hook PostInstall c])
          (frontmatter_events (options (this s)) @ [Confirmation confirmationText Resolved]
           @ hook_events (ValidateArgs cliArgs) (validateArgs (options (this s)))
           @ hook_events PreInstall (preInstall (options (this s)))
           @ concat (map (step_events im (options (this s)) (objects s) cliArgs) (steps (this s)))
           @ hook_events PostInstall (postInstall (options (this s)))
           @ success_events (options (this s)))"
    using postInstall(2)
    by (intro interrupted_append_left interrupted_append_right interrupted_hook)
  with postInstall show ?thesis by (simp add: run_events_def install_events_def)
next
  case complete
  with n show ?thesis by simp
qed


subsection \<open>Projections of the expected lists\<close>

lemma invocations_append [simp]: "invocations (xs @ ys) = invocations xs @ invocations ys"
  by (simp add: invocations_def List.map_filter_def)

lemma hookCalls_append [simp]: "hookCalls (xs @ ys) = hookCalls xs @ hookCalls ys"
  by (simp add: hookCalls_def List.map_filter_def)

lemma invocations_Cons [simp]:
  "invocations (x # xs) = (case invoked x of None \<Rightarrow> invocations xs | Some m \<Rightarrow> m # invocations xs)"
  by (simp add: invocations_def split: option.splits)

lemma hookCalls_Cons [simp]:
  "hookCalls (x # xs) = (case hooked x of None \<Rightarrow> hookCalls xs | Some m \<Rightarrow> m # hookCalls xs)"
  by (simp add: hookCalls_def split: option.splits)

lemma invocations_Nil [simp]: "invocations [] = []"
  by (simp add: invocations_def)

lemma hookCalls_Nil [simp]: "hookCalls [] = []"
  by (simp add: hookCalls_def)

lemma invocations_hook_events [simp]: "invocations (hook_events m h) = [m]"
  by (simp add: hook_events_def split: option.splits)

lemma hookCalls_hook_events [simp]:
  "hookCalls (hook_events m h) = (if h = None then [] else [m])"
  by (simp add: hook_events_def split: option.splits)

lemma invocations_dispatch_events [simp]: "invocations (dispatch_events im cliArgs r step) = []"
  by (simp add: dispatch_events_def)

lemma hookCalls_dispatch_events [simp]: "hookCalls (dispatch_events im cliArgs r step) = []"
  by (simp add: dispatch_events_def)

lemma invocations_frontmatter_events [simp]: "invocations (frontmatter_events opts) = []"
  by (simp add: frontmatter_events_def)

lemma hookCalls_frontmatter_events [simp]: "hookCalls (frontmatter_events opts) = []"
  by (simp add: frontmatter_events_def)

lemma invocations_step_events [simp]:
  "invocations (step_events im opts objs cliArgs r)
     = [BeforeEach (stepId (objs r)), AfterEach (stepId (objs r))]"
  by (simp add: step_events_def)

lemma hookCalls_step_events [simp]:
  "hookCalls (step_events im opts objs cliArgs r)
     = (if beforeEach opts = None then [] else [BeforeEach (stepId (objs r))])
       @ (if afterEach opts = None then [] else [AfterEach (stepId (objs r))])"
  by (simp add: step_events_def)

lemma invocations_concat: "invocations (concat xss) = concat (map invocations xss)"
  by (induction xss) simp_all

lemma hookCalls_concat: "hookCalls (concat xss) = concat (map hookCalls xss)"
  by (induction xss) simp_all

lemma invocations_run_events:
  "invocations (run_events im t objs cliArgs)
     = ValidateArgs cliArgs # PreInstall
       # concat (map (\<lambda>r. [BeforeEach (stepId (objs r)), AfterEach (stepId (objs r))]) (steps t))
       @ [PostInstall]"
  by (simp add: run_events_def install_events_def success_events_def invocations_concat
        comp_def)

lemma hookCalls_run_events:
  "hookCalls (run_events im t objs cliArgs)
     = (if validateArgs (options t) = None then [] else [ValidateArgs cliArgs])
       @ (if preInstall (options t) = None then [] else [PreInstall])
       @ concat (map (\<lambda>r.
             (if beforeEach (options t) = None then [] else [BeforeEach (stepId (objs r))])
             @ (if afterEach (options t) = None then [] else [AfterEach (stepId (objs r))]))
           (steps t))
       @ (if postInstall (options t) = None then [] else [PostInstall])"
  by (simp add: run_events_def install_events_def success_events_def hookCalls_concat
        comp_def)


lemma concat_map_empty: "concat (map (\<lambda>x. []) xs) = []"
  by (induction xs) simp_all

subsection \<open>More on interrupted lists\<close>


lemma in_hookCalls: "m \<in> set (hookCalls evs) \<longleftrightarrow> (\<exists>c. Hook m c \<in> set evs)"
proof (induction evs)
  case Nil
  show ?case by simp
next
  case (Cons x xs)
  then show ?case by (cases x) auto
qed

lemma isLogSuccess_settled: "isLogSuccess (settled x) = isLogSuccess x"
  by (cases x) simp_all


lemma invoked_settled: "invoked (settled x) = invoked x"
  by (cases x) simp_all

lemma step_events_plain:
  "y \<in> set (step_events im opts objs cliArgs r) \<Longrightarrow>
     \<not> isLogSuccess y \<and> \<not> isLogError y \<and> invoked y \<noteq> Some PostInstall"
  by (auto dest!: in_step_events)


subsection \<open>The executors of the expected lists\<close>

lemma filter_isExecute_hook_events [simp]: "filter isExecute (hook_events m h) = []"
  by (simp add: hook_events_def split: option.splits)

lemma filter_isExecute_frontmatter_events [simp]:
  "filter isExecute (frontmatter_events opts) = []"
  by (simp add: frontmatter_events_def)

lemma filter_isExecute_dispatch_events [simp]:
  "filter isExecute (dispatch_events im cliArgs r step) = dispatch_events im cliArgs r step"
  by (simp add: dispatch_events_def)

lemma filter_isExecute_step_events [simp]:
  "filter isExecute (step_events im opts objs cliArgs r) = dispatch_events im cliArgs r (objs r)"
  by (simp add: step_events_def)





subsection \<open>Unfolding the model on the sample installers\<close>

lemmas sample_defs = sampleCollaborators_def silentCollaborators_def eagerCollaborators_def
  meddlingCollaborators_def plainOptions_def hookedOptions_def sampleObjects_def
  transformStep_def dependencyStep_def unknownStep_def blockedStep_def failingStep_def
  start_def Installer_def

lemmas run_defs = run_def install_def run_steps_def for_steps.simps run_step_def dispatch_def
  displayFrontmatter_def Installer_validateArgs_def Installer_preInstall_def
  Installer_beforeEach_def Installer_afterEach_def Installer_postInstall_def
  andThen_def emit_def await_def confirmationText_def

lemma quietCall_unchanged: "unchanged s (snd (quietCall h m s))"
  by (cases "(h, m, s)" rule: quietCall.cases; cases m) (simp_all add: unchanged_def)


lemma preserves_silentCollaborators: "preserves silentCollaborators"
  unfolding preserves_def
proof (intro conjI allI)
  fix k r a s
  show "unchanged s (snd (executorOf silentCollaborators k r a s))"
    by (cases k) (simp_all add: silentCollaborators_def sampleCollaborators_def unchanged_def)
qed (simp_all add: silentCollaborators_def sampleCollaborators_def quietCall_unchanged)

subsection \<open>What a replay tells\<close>




lemma perform_HookDue:
  assumes "perform im cliArgs ev (HookDue m, s) = Some ds"
  shows "\<exists>h. hookOf m (options (this s)) = Some h \<and> ev = Hook m (fst (call im h m s))
             \<and> ds = (Nothing, snd (call im h m s))"
proof (cases ev)
  case (Hook m' c)
  with assms show ?thesis
    by (cases "hookOf m' (options (this s))") (simp_all split: if_splits)
qed (use assms in simp_all)


lemma replay_split:
  assumes "replay im cliArgs (pre @ ev # post) s = Some s'"
  obtains d1 s1 d2 s2 where "performAll im cliArgs pre (Nothing, s) = Some (d1, s1)"
    and "perform im cliArgs ev (d1, s1) = Some (d2, s2)"
    and "performAll im cliArgs post (d2, s2) = Some (Nothing, s')"
  using assms
  by (auto simp: replay_def performAll_append split: option.splits if_splits)

text \<open>
  At the invocation of a lifecycle method in a list that replays: the events before it
  replay to a state; when the options hold no hook there, the events after it replay from
  that very state, and when they hold one, the next event is the call of that hook in
  that state, and the events after it replay from the state the hook leaves.
\<close>

lemma replay_invoke:
  assumes "replay im cliArgs (pre @ Invoke m # post) s = Some s'"
  shows "\<exists>s1. replay im cliArgs pre s = Some s1
          \<and> (case hookOf m (options (this s1)) of
                None \<Rightarrow> replay im cliArgs post s1 = Some s'
              | Some h \<Rightarrow> \<exists>rest. post = Hook m (fst (call im h m s1)) # rest
                   \<and> replay im cliArgs rest (snd (call im h m s1)) = Some s')"
  using assms
proof (cases rule: replay_split)
  case (1 d1 s1 d2 s2)
  from 1(2) have d1: "d1 = Nothing" "s2 = s1"
    and d2: "d2 = (case hookOf m (options (this s1)) of None \<Rightarrow> Nothing | Some h \<Rightarrow> HookDue m)"
    by (auto split: if_splits)
  from 1(1) d1 have a: "replay im cliArgs pre s = Some s1" by (simp add: replay_def)
  show ?thesis
  proof (cases "hookOf m (options (this s1))")
    case None
    with 1(3) d1 d2 a show ?thesis by (simp add: replay_def)
  next
    case (Some h)
    with d2 have h: "d2 = HookDue m" by simp
    show ?thesis
    proof (cases post)
      case Nil
      with 1(3) h show ?thesis by simp
    next
      case (Cons ev rest)
      with 1(3) h d1 obtain ds where p: "perform im cliArgs ev (HookDue m, s1) = Some ds"
        and q: "performAll im cliArgs rest ds = Some (Nothing, s')"
        by (cases "perform im cliArgs ev (HookDue m, s1)") auto
      from perform_HookDue [OF p] Some
      have "ev = Hook m (fst (call im h m s1))" "ds = (Nothing, snd (call im h m s1))"
        by auto
      with q Cons a Some show ?thesis by (simp add: replay_def)
    qed
  qed
qed


lemma replay_not_hook:
  "replay im cliArgs (Hook m c # evs) s = None"
  by (simp add: replay_def split: option.splits)


text \<open>Under collaborators that leave the installer alone, so does a replay.\<close>

lemma perform_unchanged:
  assumes "preserves im" and "perform im cliArgs ev (d, s) = Some (d', s')"
  shows "unchanged s s'"
  using assms(2) preserves_call [OF assms(1)] preserves_executor [OF assms(1)]
    preserves_prompt [OF assms(1)]
  by (cases ev) (auto split: if_splits option.splits)

lemma performAll_unchanged:
  assumes "preserves im" and "performAll im cliArgs evs (d, s) = Some (d', s')"
  shows "unchanged s s'"
  using assms(2)
proof (induction evs arbitrary: d s)
  case Nil
  then show ?case by simp
next
  case (Cons ev evs)
  from Cons.prems obtain d1 s1 where p: "perform im cliArgs ev (d, s) = Some (d1, s1)"
    and q: "performAll im cliArgs evs (d1, s1) = Some (d', s')"
    by (cases "perform im cliArgs ev (d, s)") auto
  from perform_unchanged [OF assms(1) p] Cons.IH [OF q] show ?case by (rule unchanged_trans)
qed

subsection \<open>How every run settles\<close>

lemma quiet_frontmatter: "list_all quiet (frontmatter_events opts)"
  by (simp add: frontmatter_events_def)

lemma passed_quiet: "passed m xs \<Longrightarrow> list_all quiet xs"
  by (auto simp: passed_def)

lemma settles_quiet: "list_all quiet xs \<Longrightarrow> settles Resolved xs"
  by (simp add: settles_def)


lemma settles_hook: "settles c [Invoke m, Hook m c]"
  by (simp add: settles_def)

lemma plain_frontmatter:
  "list_all (\<lambda>ev. \<not> isLogError ev \<and> \<not> isLogSuccess ev \<and> invoked ev \<noteq> Some PostInstall
                 \<and> (uncaught ev \<longrightarrow> outcome ev = Some Resolved))
     (frontmatter_events opts)"
  by (simp add: frontmatter_events_def)

lemma plain_passed:
  "passed m xs \<Longrightarrow> m \<noteq> PostInstall \<Longrightarrow>
     list_all (\<lambda>ev. \<not> isLogError ev \<and> \<not> isLogSuccess ev \<and> invoked ev \<noteq> Some PostInstall
                   \<and> (uncaught ev \<longrightarrow> outcome ev = Some Resolved)) xs"
  by (auto simp: passed_def)

lemma inLoop_plain:
  "inLoop ev \<Longrightarrow> \<not> isLogError ev \<and> \<not> isLogSuccess ev \<and> invoked ev \<noteq> Some PostInstall"
  by (cases ev) auto

lemma plain_loop:
  "list_all inLoop xs \<Longrightarrow> list_all quiet xs \<Longrightarrow>
     list_all (\<lambda>ev. \<not> isLogError ev \<and> \<not> isLogSuccess ev \<and> invoked ev \<noteq> Some PostInstall
                   \<and> (uncaught ev \<longrightarrow> outcome ev = Some Resolved)) xs"
  unfolding list_all_iff
proof
  fix ev
  assume a: "\<forall>x\<in>set xs. inLoop x" "\<forall>x\<in>set xs. quiet x" "ev \<in> set xs"
  then have "inLoop ev" "quiet ev" by auto
  then show "\<not> isLogError ev \<and> \<not> isLogSuccess ev \<and> invoked ev \<noteq> Some PostInstall
             \<and> (uncaught ev \<longrightarrow> outcome ev = Some Resolved)"
    by (cases ev) (auto simp: quiet_def)
qed

text \<open>
  A run that does not resolve ends with the awaited call that did not resolve; every
  awaited call before it resolved, and the run logged neither an error nor the success
  message. It invoked \<open>postInstall\<close> only when that call is the hook \<open>postInstall\<close>.
\<close>

lemma run_failure:
  assumes r: "run im cliArgs s = Some (c, evs, s')" and n: "c \<noteq> Resolved"
  shows "settles c evs"
    and "list_all (\<lambda>ev. \<not> isLogError ev \<and> \<not> isLogSuccess ev) evs"
    and "last evs \<noteq> Hook PostInstall c \<Longrightarrow> Invoke PostInstall \<notin> set evs"
proof -
  have "settles c evs \<and> list_all (\<lambda>ev. \<not> isLogError ev \<and> \<not> isLogSuccess ev) evs
        \<and> (last evs \<noteq> Hook PostInstall c \<longrightarrow> Invoke PostInstall \<notin> set evs)"
    using r
  proof (cases rule: run_shape)
    case prompt
    have "settles c (frontmatter_events (options (this s)) @ [Confirmation confirmationText c])"
      by (rule settles_append [OF settles_quiet settles_single]) (simp_all add: quiet_frontmatter)
    with prompt(2) show ?thesis by (simp add: frontmatter_events_def)
  next
    case (invalid e)
    with n show ?thesis by simp
  next
    case validating
    have "settles c ((frontmatter_events (options (this s))
             @ [Confirmation confirmationText Resolved])
             @ [Invoke (ValidateArgs cliArgs), Hook (ValidateArgs cliArgs) c])"
      by (rule settles_append [OF settles_quiet settles_hook]) (simp add: quiet_frontmatter)
    with validating show ?thesis by (simp add: frontmatter_events_def)
  next
    case (preInstall vs)
    have "settles c ((frontmatter_events (options (this s)) @ [Confirmation confirmationText Resolved]
             @ vs) @ [Invoke PreInstall, Hook PreInstall c])"
      using passed_quiet [OF preInstall(2)]
      by (intro settles_append [OF settles_quiet settles_hook]) (simp add: quiet_frontmatter)
    moreover from preInstall(2) have "list_all (\<lambda>ev. \<not> isLogError ev \<and> \<not> isLogSuccess ev) vs"
      "Invoke PostInstall \<notin> set vs"
      by (auto simp: passed_def)
    ultimately show ?thesis using preInstall(3)
      by (auto simp: frontmatter_events_def)
  next
    case (loop vs ps ls)
    have "settles c ((frontmatter_events (options (this s)) @ [Confirmation confirmationText Resolved]
             @ vs @ ps) @ ls)"
      using passed_quiet [OF loop(2)] passed_quiet [OF loop(3)]
      by (intro settles_append [OF settles_quiet loop(5)]) (simp add: quiet_frontmatter)
    moreover from loop(2,3)
    have "list_all (\<lambda>ev. \<not> isLogError ev \<and> \<not> isLogSuccess ev) (vs @ ps)"
      "Invoke PostInstall \<notin> set (vs @ ps)"
      by (auto simp: passed_def)
    moreover from loop(4) have "list_all (\<lambda>ev. \<not> isLogError ev \<and> \<not> isLogSuccess ev) ls"
      "Invoke PostInstall \<notin> set ls"
      by (auto simp: list_all_iff dest: inLoop_plain)
    ultimately show ?thesis using loop(6)
      by (auto simp: frontmatter_events_def)
  next
    case (postInstall vs ps ls)
    have "settles c ((frontmatter_events (options (this s)) @ [Confirmation confirmationText Resolved]
             @ vs @ ps @ ls) @ [Invoke PostInstall, Hook PostInstall c])"
      using passed_quiet [OF postInstall(2)] passed_quiet [OF postInstall(3)] postInstall(5)
      by (intro settles_append [OF settles_quiet settles_hook]) (simp add: quiet_frontmatter)
    moreover from postInstall(2,3)
    have "list_all (\<lambda>ev. \<not> isLogError ev \<and> \<not> isLogSuccess ev) (vs @ ps)"
      by (auto simp: passed_def)
    moreover from postInstall(4)
    have "list_all (\<lambda>ev. \<not> isLogError ev \<and> \<not> isLogSuccess ev) ls"
      by (auto simp: list_all_iff dest: inLoop_plain)
    ultimately show ?thesis using postInstall(6)
      by (auto simp: frontmatter_events_def)
  next
    case (complete vs ps ls qs msg)
    with n show ?thesis by simp
  qed
  then show "settles c evs"
    and "list_all (\<lambda>ev. \<not> isLogError ev \<and> \<not> isLogSuccess ev) evs"
    and "last evs \<noteq> Hook PostInstall c \<Longrightarrow> Invoke PostInstall \<notin> set evs"
    by simp_all
qed



subsection \<open>What a run logs and calls\<close>

text \<open>An error is logged only for a rejection of the hook \<open>validateArgs\<close>.\<close>

lemma run_log_error:
  assumes r: "run im cliArgs s = Some (c, evs, s')" and m: "Log_error e \<in> set evs"
  shows "c = Resolved"
    and "evs = frontmatter_events (options (this s))
               @ [Confirmation confirmationText Resolved, Invoke (ValidateArgs cliArgs),
                  Hook (ValidateArgs cliArgs) (Rejected e), Log_error e]"
proof -
  have n: "c = Resolved"
  proof (rule ccontr)
    assume "c \<noteq> Resolved"
    from run_failure(2) [OF r this] m show False by (auto simp: list_all_iff)
  qed
  from r have "evs = frontmatter_events (options (this s))
               @ [Confirmation confirmationText Resolved, Invoke (ValidateArgs cliArgs),
                  Hook (ValidateArgs cliArgs) (Rejected e), Log_error e]"
  proof (cases rule: run_shape)
    case (invalid e')
    with m show ?thesis by (auto simp: frontmatter_events_def)
  next
    case (complete vs ps ls qs msg)
    from complete(2,3,6) have "Log_error e \<notin> set (vs @ ps @ qs)"
      by (auto simp: passed_def)
    moreover from complete(4) have "Log_error e \<notin> set ls"
      by (auto simp: list_all_iff)
    ultimately show ?thesis using m complete(7)
      by (auto simp: frontmatter_events_def)
  qed (use n in simp_all)
  with n show "c = Resolved"
    and "evs = frontmatter_events (options (this s))
               @ [Confirmation confirmationText Resolved, Invoke (ValidateArgs cliArgs),
                  Hook (ValidateArgs cliArgs) (Rejected e), Log_error e]"
    by simp_all
qed

text \<open>
  Under collaborators that leave the installer alone, a hook that is called is one that
  the options held when the run began.
\<close>

lemma performAll_hook_present:
  assumes p: "preserves im" and "performAll im cliArgs evs (d, s) = Some ds'"
    and "Hook m c \<in> set evs"
  shows "hookOf m (options (this s)) \<noteq> None"
  using assms(2,3)
proof (induction evs arbitrary: d s)
  case Nil
  then show ?case by simp
next
  case (Cons ev evs)
  from Cons.prems(1) obtain d1 s1 where a: "perform im cliArgs ev (d, s) = Some (d1, s1)"
    and q: "performAll im cliArgs evs (d1, s1) = Some ds'"
    by (cases "perform im cliArgs ev (d, s)") auto
  show ?case
  proof (cases "ev = Hook m c")
    case True
    with a show ?thesis by (auto split: option.splits)
  next
    case False
    with Cons.prems(2) have "Hook m c \<in> set evs" by simp
    from Cons.IH [OF q this] perform_unchanged [OF p a] show ?thesis
      by (simp add: unchanged_def)
  qed
qed

lemma run_hook_present:
  assumes "preserves im" and "run im cliArgs s = Some (c, evs, s')" and "Hook m c' \<in> set evs"
  shows "hookOf m (options (this s)) \<noteq> None"
proof -
  from run_replay [OF assms(2)] obtain ds' where
    "performAll im cliArgs evs (Nothing, s) = Some ds'"
    by (auto simp: replay_def split: option.splits)
  from performAll_hook_present [OF assms(1) this assms(3)] show ?thesis .
qed

text \<open>Such a run follows the order of the phases, or stops where \<open>validateArgs\<close> rejects.\<close>

lemma run_follows:
  assumes p: "preserves im" and r: "run im cliArgs s = Some (c, evs, s')"
  shows "follows c evs (run_events im (this s) (objects s) cliArgs)
         \<or> (\<exists>e. c = Resolved \<and> validateArgs (options (this s)) \<noteq> None
                \<and> evs = frontmatter_events (options (this s))
                        @ [Confirmation confirmationText Resolved, Invoke (ValidateArgs cliArgs),
                           Hook (ValidateArgs cliArgs) (Rejected e), Log_error e])"
proof (cases "c = Resolved")
  case False
  with run_interrupted [OF p r] show ?thesis by (simp add: follows_def)
next
  case True
  from p r show ?thesis
  proof (cases rule: run_cases)
    case (invalid e)
    then show ?thesis by blast
  next
    case complete
    then show ?thesis by (simp add: follows_def)
  qed (use True in simp_all)
qed

section \<open>The properties of the specification\<close>

subsection \<open>The frontmatter phase\<close>

text \<open>
  Claim C7. \<open>displayFrontmatter\<close> always returns, and its events are the branded welcome
  line holding the package name, the branded line with the description, the informational
  line naming the owner and the one with the repository link, in this order, and then
  (after a blank line) the awaited confirmation prompt, called in the state in which the
  run began. Every run that returns begins with these six events; whatever else it does,
  the call of any hook or step included, comes after them. When the prompt does not
  resolve the run returns with these six events and nothing else, settled as the prompt
  did: the run blocks until the prompt resolves.
\<close>

theorem frontmatter_then_confirmation:
  "displayFrontmatter im s =
     Some (fst (waitForConfirmation im ''Press enter to begin installation'' s),
           [Log_branded (''Welcome to the installer for '' @ packageName (options (this s))),
            Log_branded (packageDescription (options (this s))),
            Log_info (''This package is authored and supported by ''
                      @ packageOwner (options (this s))),
            Log_info (''For additional documentation and support please visit ''
                      @ packageRepoLink (options (this s))),
            Console_log,
            Confirmation ''Press enter to begin installation''
              (fst (waitForConfirmation im ''Press enter to begin installation'' s))],
           snd (waitForConfirmation im ''Press enter to begin installation'' s))
   \<and> (run im cliArgs s = Some (c, evs, s') \<longrightarrow>
        (\<exists>rest.
           evs = [Log_branded (''Welcome to the installer for '' @ packageName (options (this s))),
                  Log_branded (packageDescription (options (this s))),
                  Log_info (''This package is authored and supported by ''
                            @ packageOwner (options (this s))),
                  Log_info (''For additional documentation and support please visit ''
                            @ packageRepoLink (options (this s))),
                  Console_log,
                  Confirmation ''Press enter to begin installation''
                    (fst (waitForConfirmation im ''Press enter to begin installation'' s))]
                 @ rest
           \<and> (fst (waitForConfirmation im ''Press enter to begin installation'' s) \<noteq> Resolved
                \<longrightarrow> rest = []
                  \<and> c = fst (waitForConfirmation im ''Press enter to begin installation'' s))))
   \<and> (fst (waitForConfirmation im ''Press enter to begin installation'' s) \<noteq> Resolved \<longrightarrow>
        run im cliArgs s = displayFrontmatter im s)"
proof -
  have d: "displayFrontmatter im s =
     Some (fst (waitForConfirmation im confirmationText s),
           frontmatter_events (options (this s))
           @ [Confirmation confirmationText (fst (waitForConfirmation im confirmationText s))],
           snd (waitForConfirmation im confirmationText s))"
    by (simp add: displayFrontmatter_eq split: prod.splits)
  have 2: "\<exists>rest. evs = frontmatter_events (options (this s))
                 @ [Confirmation confirmationText (fst (waitForConfirmation im confirmationText s))]
                 @ rest
           \<and> (fst (waitForConfirmation im confirmationText s) \<noteq> Resolved
                \<longrightarrow> rest = [] \<and> c = fst (waitForConfirmation im confirmationText s))"
    if r: "run im cliArgs s = Some (c, evs, s')"
    using r unfolding run_def
  proof (cases rule: andThen_cases)
    case stop
    with d show ?thesis by simp
  next
    case (go evs1 s1 evs2)
    with d show ?thesis by simp
  qed
  have 3: "run im cliArgs s = displayFrontmatter im s"
    if "fst (waitForConfirmation im confirmationText s) \<noteq> Resolved"
    using that d by (simp add: run_def andThen_Some)
  note a = d [unfolded frontmatter_events_def confirmationText_def]
  note b = 2 [unfolded frontmatter_events_def confirmationText_def]
  note e = 3 [unfolded confirmationText_def]
  show ?thesis
  proof (intro conjI impI)
    assume "run im cliArgs s = Some (c, evs, s')"
    from b [OF this] show "\<exists>rest.
           evs = [Log_branded (''Welcome to the installer for '' @ packageName (options (this s))),
                  Log_branded (packageDescription (options (this s))),
                  Log_info (''This package is authored and supported by ''
                            @ packageOwner (options (this s))),
                  Log_info (''For additional documentation and support please visit ''
                            @ packageRepoLink (options (this s))),
                  Console_log,
                  Confirmation ''Press enter to begin installation''
                    (fst (waitForConfirmation im ''Press enter to begin installation'' s))]
                 @ rest
           \<and> (fst (waitForConfirmation im ''Press enter to begin installation'' s) \<noteq> Resolved
                \<longrightarrow> rest = []
                  \<and> c = fst (waitForConfirmation im ''Press enter to begin installation'' s))"
      by simp
  qed (use a e in simp_all)
qed

theorem frontmatter_then_confirmation_witness:
  "fst (waitForConfirmation silentCollaborators ''Press enter to begin installation''
         (start hookedOptions [transformStep])) \<noteq> Resolved
   \<and> run silentCollaborators [''--dry''] (start hookedOptions [transformStep])
       = Some (Pending,
               [Log_branded ''Welcome to the installer for tailwind'',
                Log_branded ''Utility-first CSS'',
                Log_info ''This package is authored and supported by blitz'',
                Log_info ''For additional documentation and support please visit https://example.org/tailwind'',
                Console_log,
                Confirmation ''Press enter to begin installation'' Pending],
               start hookedOptions [transformStep])"
proof -
  have p: "fst (waitForConfirmation silentCollaborators ''Press enter to begin installation''
         (start hookedOptions [transformStep])) \<noteq> Resolved"
    by (simp add: sample_defs)
  from frontmatter_then_confirmation
    [of silentCollaborators "start hookedOptions [transformStep]" "[''--dry'']"
        Pending "[]" "start hookedOptions [transformStep]"] p
  have "run silentCollaborators [''--dry''] (start hookedOptions [transformStep])
          = displayFrontmatter silentCollaborators (start hookedOptions [transformStep])"
    by blast
  moreover have "displayFrontmatter silentCollaborators (start hookedOptions [transformStep])
       = Some (Pending,
               [Log_branded ''Welcome to the installer for tailwind'',
                Log_branded ''Utility-first CSS'',
                Log_info ''This package is authored and supported by blitz'',
                Log_info ''For additional documentation and support please visit https://example.org/tailwind'',
                Console_log,
                Confirmation ''Press enter to begin installation'' Pending],
               start hookedOptions [transformStep])"
    by (simp add: run_defs sample_defs)
  ultimately show ?thesis using p by simp
qed

subsection \<open>A failing validation\<close>

text \<open>
  Claim C1. When the hook \<open>validateArgs\<close> of the options is called and rejects (or throws)
  with an error, \<open>run\<close> resolves: the error does not leave it. The error is logged exactly
  once, after the frontmatter and the call of the hook, and that is all the run does:
  the only lifecycle method and the only hook it calls is \<open>validateArgs\<close>, so \<open>preInstall\<close>,
  \<open>beforeEach\<close>, \<open>afterEach\<close> and \<open>postInstall\<close> are never invoked, no executor is, and no
  success message is written; the events are real calls, made in the states they were
  made in. And the run does return then: when the prompt resolves, the options hold a
  hook \<open>validateArgs\<close> at that moment and this hook, called with the arguments of the run,
  rejects with an error, \<open>run\<close> returns resolved with exactly these events, in the state
  that the hook left.
\<close>

theorem validateArgs_failure_is_reported:
  "(run im cliArgs s = Some (c, evs, s')
    \<and> Hook (ValidateArgs cliArgs) (Rejected e) \<in> set evs \<longrightarrow>
      c = Resolved
      \<and> evs = frontmatter_events (options (this s))
              @ [Confirmation confirmationText Resolved, Invoke (ValidateArgs cliArgs),
                 Hook (ValidateArgs cliArgs) (Rejected e), Log_error e]
      \<and> filter isLogError evs = [Log_error e]
      \<and> \<not> list_ex isExecute evs
      \<and> invocations evs = [ValidateArgs cliArgs]
      \<and> hookCalls evs = [ValidateArgs cliArgs]
      \<and> \<not> list_ex isLogSuccess evs
      \<and> replay im cliArgs evs s = Some s')
   \<and> (fst (waitForConfirmation im confirmationText s) = Resolved
      \<and> validateArgs (options (this (snd (waitForConfirmation im confirmationText s)))) = Some h
      \<and> fst (call im h (ValidateArgs cliArgs) (snd (waitForConfirmation im confirmationText s)))
          = Rejected e \<longrightarrow>
      run im cliArgs s =
        Some (Resolved,
              frontmatter_events (options (this s))
              @ [Confirmation confirmationText Resolved, Invoke (ValidateArgs cliArgs),
                 Hook (ValidateArgs cliArgs) (Rejected e), Log_error e],
              snd (call im h (ValidateArgs cliArgs)
                     (snd (waitForConfirmation im confirmationText s)))))"
proof (intro conjI impI)
  assume a: "run im cliArgs s = Some (c, evs, s')
    \<and> Hook (ValidateArgs cliArgs) (Rejected e) \<in> set evs"
  then have r: "run im cliArgs s = Some (c, evs, s')"
    and v: "Hook (ValidateArgs cliArgs) (Rejected e) \<in> set evs"
    by simp_all
  have np: "Hook (ValidateArgs cliArgs) (Rejected e) \<notin> set xs" if "passed m xs" for m xs
    using that by (auto simp: passed_def)
  have nl: "Hook (ValidateArgs cliArgs) (Rejected e) \<notin> set xs" if "list_all inLoop xs" for xs
    using that by (auto simp: list_all_iff)
  from r have "c = Resolved
      \<and> evs = frontmatter_events (options (this s))
              @ [Confirmation confirmationText Resolved, Invoke (ValidateArgs cliArgs),
                 Hook (ValidateArgs cliArgs) (Rejected e), Log_error e]"
  proof (cases rule: run_shape)
    case prompt
    with v show ?thesis by (auto dest: in_frontmatter_events)
  next
    case (invalid e')
    with v have "e' = e" by (auto dest: in_frontmatter_events)
    with invalid show ?thesis by simp
  next
    case validating
    with v show ?thesis by (auto dest: in_frontmatter_events)
  next
    case (preInstall vs)
    with v np [of "ValidateArgs cliArgs" vs] show ?thesis
      by (auto dest: in_frontmatter_events)
  next
    case (loop vs ps ls)
    with v np [of "ValidateArgs cliArgs" vs] np [of PreInstall ps] nl [of ls] show ?thesis
      by (auto dest: in_frontmatter_events)
  next
    case (postInstall vs ps ls)
    with v np [of "ValidateArgs cliArgs" vs] np [of PreInstall ps] nl [of ls] show ?thesis
      by (auto dest: in_frontmatter_events)
  next
    case (complete vs ps ls qs msg)
    with v np [of "ValidateArgs cliArgs" vs] np [of PreInstall ps] nl [of ls]
      np [of PostInstall qs]
    show ?thesis by (auto dest: in_frontmatter_events)
  qed
  then have c: "c = Resolved"
    and e: "evs = frontmatter_events (options (this s))
              @ [Confirmation confirmationText Resolved, Invoke (ValidateArgs cliArgs),
                 Hook (ValidateArgs cliArgs) (Rejected e), Log_error e]"
    by simp_all
  show "c = Resolved" by (rule c)
  show "evs = frontmatter_events (options (this s))
              @ [Confirmation confirmationText Resolved, Invoke (ValidateArgs cliArgs),
                 Hook (ValidateArgs cliArgs) (Rejected e), Log_error e]" by (rule e)
  show "filter isLogError evs = [Log_error e]"
    unfolding e by (simp add: frontmatter_events_def)
  show "\<not> list_ex isExecute evs"
    unfolding e by (simp add: frontmatter_events_def)
  show "invocations evs = [ValidateArgs cliArgs]"
    unfolding e by simp
  show "hookCalls evs = [ValidateArgs cliArgs]"
    unfolding e by simp
  show "\<not> list_ex isLogSuccess evs"
    unfolding e by (simp add: frontmatter_events_def)
  show "replay im cliArgs evs s = Some s'" using r by (rule run_replay)
next
  assume a: "fst (waitForConfirmation im confirmationText s) = Resolved
      \<and> validateArgs (options (this (snd (waitForConfirmation im confirmationText s)))) = Some h
      \<and> fst (call im h (ValidateArgs cliArgs) (snd (waitForConfirmation im confirmationText s)))
          = Rejected e"
  define s1 where "s1 = snd (waitForConfirmation im confirmationText s)"
  from a have d: "displayFrontmatter im s
      = Some (Resolved, frontmatter_events (options (this s))
                        @ [Confirmation confirmationText Resolved], s1)"
    by (cases "waitForConfirmation im confirmationText s")
       (simp add: displayFrontmatter_eq s1_def)
  from a have "Installer_validateArgs im cliArgs s1
      = Some (Rejected e, [Invoke (ValidateArgs cliArgs), Hook (ValidateArgs cliArgs) (Rejected e)],
              snd (call im h (ValidateArgs cliArgs) s1))"
    by (cases "call im h (ValidateArgs cliArgs) s1")
       (simp add: Installer_validateArgs_eq s1_def)
  with d show "run im cliArgs s =
        Some (Resolved,
              frontmatter_events (options (this s))
              @ [Confirmation confirmationText Resolved, Invoke (ValidateArgs cliArgs),
                 Hook (ValidateArgs cliArgs) (Rejected e), Log_error e],
              snd (call im h (ValidateArgs cliArgs)
                     (snd (waitForConfirmation im confirmationText s))))"
    by (simp add: run_def andThen_Some s1_def)
qed

theorem validateArgs_failure_is_reported_witness:
  "fst (waitForConfirmation sampleCollaborators confirmationText
          (start hookedOptions [transformStep, dependencyStep])) = Resolved
   \<and> validateArgs (options (this (snd (waitForConfirmation sampleCollaborators confirmationText
          (start hookedOptions [transformStep, dependencyStep]))))) = Some CheckArgs
   \<and> fst (call sampleCollaborators CheckArgs (ValidateArgs [])
            (snd (waitForConfirmation sampleCollaborators confirmationText
                    (start hookedOptions [transformStep, dependencyStep]))))
       = Rejected ''bad args''
   \<and> map_option fst (run sampleCollaborators [] (start hookedOptions [transformStep, dependencyStep]))
       = Some Resolved
   \<and> map_option (\<lambda>res. filter isLogError (fst (snd res)))
        (run sampleCollaborators [] (start hookedOptions [transformStep, dependencyStep]))
       = Some [Log_error ''bad args'']
   \<and> map_option (\<lambda>res. invocations (fst (snd res)))
        (run sampleCollaborators [] (start hookedOptions [transformStep, dependencyStep]))
       = Some [ValidateArgs []]"
proof -
  let ?s = "start hookedOptions [transformStep, dependencyStep]"
  let ?s1 = "snd (waitForConfirmation sampleCollaborators confirmationText ?s)"
  let ?evs = "frontmatter_events (options (this ?s))
              @ [Confirmation confirmationText Resolved, Invoke (ValidateArgs []),
                 Hook (ValidateArgs []) (Rejected ''bad args''), Log_error ''bad args'']"
  let ?s' = "snd (call sampleCollaborators CheckArgs (ValidateArgs []) ?s1)"
  have h: "fst (waitForConfirmation sampleCollaborators confirmationText ?s) = Resolved"
    "validateArgs (options (this ?s1)) = Some CheckArgs"
    "fst (call sampleCollaborators CheckArgs (ValidateArgs []) ?s1) = Rejected ''bad args''"
    by (simp_all add: sample_defs)
  note t = validateArgs_failure_is_reported
    [of sampleCollaborators "[]" ?s Resolved ?evs ?s' "''bad args''" CheckArgs]
  from t [THEN conjunct2, THEN mp] h
  have r: "run sampleCollaborators [] ?s = Some (Resolved, ?evs, ?s')" by blast
  have m: "Hook (ValidateArgs []) (Rejected ''bad args'') \<in> set ?evs" by simp
  note u = t [THEN conjunct1, THEN mp, OF conjI, OF r m]
  note u3 = u [THEN conjunct2, THEN conjunct2, THEN conjunct1]
  note u5 = u [THEN conjunct2, THEN conjunct2, THEN conjunct2, THEN conjunct2, THEN conjunct1]
  from h r u3 u5 show ?thesis by simp
qed

subsection \<open>Failures that are not caught\<close>



subsection \<open>The dispatch\<close>



end
